theory Spec2Isabelle
  imports Complex_Main
begin

section \<open>The evaluation core of the calculator\<close>

text \<open>
  The repository holds four front-ends (the line-mode REPL \<^verbatim>\<open>calculator.c\<close>, the terminal
  dashboard \<^verbatim>\<open>calculator_tui.c\<close>, the Cocoa GUI \<^verbatim>\<open>calculator_mac.m\<close> and the X11 GUI
  \<^verbatim>\<open>calculator_gui.c\<close>).  Each carries its own copy of the same lexer and recursive-descent
  evaluator.  The copies differ in two places only: the wording of the error messages, and
  \<^verbatim>\<open>parse_factor\<close>, which in the Cocoa copy multiplies implicitly.  The embedding below is one
  model with the front-end as a parameter.
\<close>

datatype variant = CLI | TUI | MAC | X11

subsection \<open>Numbers and the C library\<close>

text \<open>
  A C \<^verbatim>\<open>double\<close> is modelled by a real number: \<^verbatim>\<open>+ - * /\<close>, unary minus and the comparisons
  with zero are the exact ones.  Rounding, overflow to an infinity and NaN are outside the model,
  so a zero or sign test can come out differently from the code where the code's operands have
  been rounded (\<^verbatim>\<open>0.1+0.2-0.3\<close> is not zero in doubles).
  The functions and constants of \<^verbatim>\<open><math.h>\<close>, \<^verbatim>\<open><stdlib.h>\<close> and \<^verbatim>\<open><stdio.h>\<close> that the evaluator calls
  are not part of the repository; they are a parameter of the model.  The last field is the one
  call whose result C leaves open: \<^verbatim>\<open>sprintf(token.text, "Unknown: %s", token.text)\<close> formats
  into the buffer it reads from; \<open>c_sprintf_overlap prefix text\<close> is what the buffer holds
  afterwards.  That call also writes past the 256 bytes of the buffer when the word has more
  than 235 (REPL) or 246 (other front-ends) letters; the model does not cover such inputs.
\<close>

record libm =
  c_atof :: "string \<Rightarrow> real"
  c_sin :: "real \<Rightarrow> real"
  c_cos :: "real \<Rightarrow> real"
  c_tan :: "real \<Rightarrow> real"
  c_sqrt :: "real \<Rightarrow> real"
  c_log :: "real \<Rightarrow> real"
  c_exp :: "real \<Rightarrow> real"
  c_fabs :: "real \<Rightarrow> real"
  c_pow :: "real \<Rightarrow> real \<Rightarrow> real"
  c_fmod :: "real \<Rightarrow> real \<Rightarrow> real"
  M_PI :: real
  M_E :: real
  c_sprintf_overlap :: "string \<Rightarrow> string \<Rightarrow> string"

subsection \<open>Tokens and the lexer state\<close>

datatype TokenType =
    TOKEN_NUMBER | TOKEN_PLUS | TOKEN_MINUS | TOKEN_MULTIPLY | TOKEN_DIVIDE
  | TOKEN_MODULO | TOKEN_POWER | TOKEN_LPAREN | TOKEN_RPAREN
  | TOKEN_SIN | TOKEN_COS | TOKEN_TAN | TOKEN_SQRT | TOKEN_LOG | TOKEN_EXP
  | TOKEN_ABS | TOKEN_PI | TOKEN_E | TOKEN_EOF | TOKEN_ERROR

text \<open>
  \<^verbatim>\<open>struct Token { TokenType type; double value; char text[MAX_TOKEN_LEN]; }\<close>.
  The C code leaves \<open>value\<close> uninitialised in tokens whose value is never read; the model
  puts 0 there.
\<close>

record Token =
  tok_type :: TokenType
  tok_value :: real
  tok_text :: string

record Lexer =
  input :: string
  position :: nat
  current :: Token

definition MAX_TOKEN_LEN :: nat where
  "MAX_TOKEN_LEN = 256"

text \<open>
  \<^verbatim>\<open>lexer->input[i]\<close>: the input is a NUL-terminated C string, so reading at its length
  gives the terminator.
\<close>

definition char_at :: "string \<Rightarrow> nat \<Rightarrow> char" where
  "char_at s i = (if i < length s then s ! i else CHR 0x00)"

text \<open>The \<^verbatim>\<open><ctype.h>\<close> predicates in the C locale.\<close>

definition isspace :: "char \<Rightarrow> bool" where
  "isspace c \<longleftrightarrow> c \<in> set [CHR '' '', CHR 0x09, CHR 0x0A, CHR 0x0B, CHR 0x0C, CHR 0x0D]"

definition isdigit :: "char \<Rightarrow> bool" where
  "isdigit c \<longleftrightarrow> c \<in> set ''0123456789''"

definition isalpha :: "char \<Rightarrow> bool" where
  "isalpha c \<longleftrightarrow> c \<in> set ''abcdefghijklmnopqrstuvwxyzABCDEFGHIJKLMNOPQRSTUVWXYZ''"

definition lexer_init :: "string \<Rightarrow> Lexer" where
  "lexer_init s =
     \<lparr>input = s, position = 0,
      current = \<lparr>tok_type = TOKEN_EOF, tok_value = 0, tok_text = []\<rparr>\<rparr>"

subsection \<open>The lexer\<close>

text \<open>The loop of \<^verbatim>\<open>lexer_skip_whitespace\<close>, on the cursor.\<close>

function skip_whitespace_loop :: "string \<Rightarrow> nat \<Rightarrow> nat" where
  "skip_whitespace_loop s i =
     (if char_at s i \<noteq> CHR 0x00 \<and> isspace (char_at s i)
      then skip_whitespace_loop s (i + 1)
      else i)"
  by pat_completeness auto
termination
  by (relation "measure (\<lambda>(s, i). length s - i)")
     (auto simp: char_at_def split: if_splits)

declare skip_whitespace_loop.simps [simp del]

definition lexer_skip_whitespace :: "Lexer \<Rightarrow> Lexer" where
  "lexer_skip_whitespace l = l\<lparr>position := skip_whitespace_loop (input l) (position l)\<rparr>"

text \<open>
  The loop of \<^verbatim>\<open>lexer_read_number\<close>: digits, and a dot as long as \<open>has_dot\<close> is not set.
\<close>

function read_number_loop :: "string \<Rightarrow> nat \<Rightarrow> bool \<Rightarrow> nat" where
  "read_number_loop s i has_dot =
     (if char_at s i \<noteq> CHR 0x00 then
        (if isdigit (char_at s i) then read_number_loop s (i + 1) has_dot
         else if char_at s i = CHR ''.'' \<and> \<not> has_dot then read_number_loop s (i + 1) True
         else i)
      else i)"
  by pat_completeness auto
termination
  by (relation "measure (\<lambda>(s, i, d). length s - i)")
     (auto simp: char_at_def split: if_splits)

declare read_number_loop.simps [simp del]

text \<open>
  \<^verbatim>\<open>strncpy(token.text, lexer->input + start, len)\<close> after
  \<^verbatim>\<open>if (len >= MAX_TOKEN_LEN) len = MAX_TOKEN_LEN - 1\<close>.
\<close>

definition token_text :: "string \<Rightarrow> nat \<Rightarrow> nat \<Rightarrow> string" where
  "token_text s start end =
     (let len = end - start;
          len = (if len \<ge> MAX_TOKEN_LEN then MAX_TOKEN_LEN - 1 else len)
      in take len (drop start s))"

definition lexer_read_number :: "libm \<Rightarrow> Lexer \<Rightarrow> Token \<times> Lexer" where
  "lexer_read_number m l =
     (let start = position l;
          l = l\<lparr>position := read_number_loop (input l) (position l) False\<rparr>;
          text = token_text (input l) start (position l)
      in (\<lparr>tok_type = TOKEN_NUMBER, tok_value = c_atof m text, tok_text = text\<rparr>, l))"

function read_identifier_loop :: "string \<Rightarrow> nat \<Rightarrow> nat" where
  "read_identifier_loop s i =
     (if char_at s i \<noteq> CHR 0x00 \<and> isalpha (char_at s i)
      then read_identifier_loop s (i + 1)
      else i)"
  by pat_completeness auto
termination
  by (relation "measure (\<lambda>(s, i). length s - i)")
     (auto simp: char_at_def split: if_splits)

declare read_identifier_loop.simps [simp del]

text \<open>The wording of the messages, by front-end.\<close>

definition msg_unknown_identifier :: "variant \<Rightarrow> string" where
  "msg_unknown_identifier v = (if v = CLI then ''Unknown identifier: '' else ''Unknown: '')"

definition msg_unexpected_character :: "variant \<Rightarrow> string" where
  "msg_unexpected_character v = (if v = CLI then ''Unexpected character: '' else ''Unknown: '')"

definition msg_division_by_zero :: "variant \<Rightarrow> string" where
  "msg_division_by_zero v = ''Division by zero''"

definition msg_modulo_by_zero :: "variant \<Rightarrow> string" where
  "msg_modulo_by_zero v = ''Modulo by zero''"

definition msg_sqrt_negative :: "variant \<Rightarrow> string" where
  "msg_sqrt_negative v =
     (if v = CLI then ''Square root of negative number'' else ''Sqrt of negative'')"

definition msg_log_non_positive :: "variant \<Rightarrow> string" where
  "msg_log_non_positive v =
     (if v = CLI then ''Logarithm of non-positive number'' else ''Log of non-positive'')"

definition msg_missing_paren :: "variant \<Rightarrow> string" where
  "msg_missing_paren v = (if v = CLI then ''Expected closing parenthesis'' else ''Missing )'')"

definition msg_unexpected_end :: "variant \<Rightarrow> string" where
  "msg_unexpected_end v = (if v = CLI then ''Unexpected end of expression'' else ''Unexpected end'')"

definition msg_unexpected_token :: "variant \<Rightarrow> string" where
  "msg_unexpected_token v = (if v = CLI then ''Unexpected token: '' else ''Unexpected: '')"

definition msg_extra_tokens :: "variant \<Rightarrow> string" where
  "msg_extra_tokens v = (if v = CLI then ''Unexpected tokens after expression'' else ''Extra tokens'')"

text \<open>
  \<^verbatim>\<open>lexer_read_identifier\<close>.  For an unknown word the C code formats the message into the
  buffer that also holds the word (\<^verbatim>\<open>sprintf(token.text, "Unknown: %s", token.text)\<close>); what
  the buffer holds afterwards is given by the library parameter.
\<close>

definition lexer_read_identifier :: "variant \<Rightarrow> libm \<Rightarrow> Lexer \<Rightarrow> Token \<times> Lexer" where
  "lexer_read_identifier v m l =
     (let start = position l;
          l = l\<lparr>position := read_identifier_loop (input l) (position l)\<rparr>;
          text = token_text (input l) start (position l);
          token =
            (if text = ''sin'' then \<lparr>tok_type = TOKEN_SIN, tok_value = 0, tok_text = text\<rparr>
             else if text = ''cos'' then \<lparr>tok_type = TOKEN_COS, tok_value = 0, tok_text = text\<rparr>
             else if text = ''tan'' then \<lparr>tok_type = TOKEN_TAN, tok_value = 0, tok_text = text\<rparr>
             else if text = ''sqrt'' then \<lparr>tok_type = TOKEN_SQRT, tok_value = 0, tok_text = text\<rparr>
             else if text = ''log'' then \<lparr>tok_type = TOKEN_LOG, tok_value = 0, tok_text = text\<rparr>
             else if text = ''exp'' then \<lparr>tok_type = TOKEN_EXP, tok_value = 0, tok_text = text\<rparr>
             else if text = ''abs'' then \<lparr>tok_type = TOKEN_ABS, tok_value = 0, tok_text = text\<rparr>
             else if text = ''pi'' then \<lparr>tok_type = TOKEN_PI, tok_value = M_PI m, tok_text = text\<rparr>
             else if text = ''e'' then \<lparr>tok_type = TOKEN_E, tok_value = M_E m, tok_text = text\<rparr>
             else \<lparr>tok_type = TOKEN_ERROR, tok_value = 0,
                   tok_text = c_sprintf_overlap m (msg_unknown_identifier v) text\<rparr>)
      in (token, l))"

definition lexer_next_token :: "variant \<Rightarrow> libm \<Rightarrow> Lexer \<Rightarrow> Token \<times> Lexer" where
  "lexer_next_token v m l0 =
     (let l = lexer_skip_whitespace l0;
          c = char_at (input l) (position l)
      in if c = CHR 0x00 then (\<lparr>tok_type = TOKEN_EOF, tok_value = 0, tok_text = []\<rparr>, l)
         else if isdigit c \<or> (c = CHR ''.'' \<and> isdigit (char_at (input l) (position l + 1)))
           then lexer_read_number m l
         else if isalpha c then lexer_read_identifier v m l
         else
           (let l = l\<lparr>position := position l + 1\<rparr>
            in if c = CHR ''+'' then (\<lparr>tok_type = TOKEN_PLUS, tok_value = 0, tok_text = ''+''\<rparr>, l)
               else if c = CHR ''-'' then (\<lparr>tok_type = TOKEN_MINUS, tok_value = 0, tok_text = ''-''\<rparr>, l)
               else if c = CHR ''*'' then (\<lparr>tok_type = TOKEN_MULTIPLY, tok_value = 0, tok_text = ''*''\<rparr>, l)
               else if c = CHR ''/'' then (\<lparr>tok_type = TOKEN_DIVIDE, tok_value = 0, tok_text = ''/''\<rparr>, l)
               else if c = CHR ''%'' then (\<lparr>tok_type = TOKEN_MODULO, tok_value = 0, tok_text = ''%''\<rparr>, l)
               else if c = CHR ''^'' then (\<lparr>tok_type = TOKEN_POWER, tok_value = 0, tok_text = ''^''\<rparr>, l)
               else if c = CHR ''('' then (\<lparr>tok_type = TOKEN_LPAREN, tok_value = 0, tok_text = ''(''\<rparr>, l)
               else if c = CHR '')'' then (\<lparr>tok_type = TOKEN_RPAREN, tok_value = 0, tok_text = '')''\<rparr>, l)
               else (\<lparr>tok_type = TOKEN_ERROR, tok_value = 0,
                      tok_text = msg_unexpected_character v @ [c]\<rparr>, l)))"

definition lexer_advance :: "variant \<Rightarrow> libm \<Rightarrow> Lexer \<Rightarrow> Lexer" where
  "lexer_advance v m l = (case lexer_next_token v m l of (token, l') \<Rightarrow> l'\<lparr>current := token\<rparr>)"

subsection \<open>The parser state\<close>

record Parser =
  lexer :: Lexer
  error :: string
  has_error :: bool

definition parser_init :: "variant \<Rightarrow> libm \<Rightarrow> Lexer \<Rightarrow> Parser" where
  "parser_init v m l = \<lparr>lexer = lexer_advance v m l, error = [], has_error = False\<rparr>"

text \<open>\<^verbatim>\<open>strncpy(parser->error, message, 255)\<close>.\<close>

definition parser_error :: "Parser \<Rightarrow> string \<Rightarrow> Parser" where
  "parser_error p message = p\<lparr>has_error := True, error := take 255 message\<rparr>"

text \<open>The call \<^verbatim>\<open>lexer_advance(parser->lexer)\<close>, through the pointer the parser holds.\<close>

definition advance :: "variant \<Rightarrow> libm \<Rightarrow> Parser \<Rightarrow> Parser" where
  "advance v m p = p\<lparr>lexer := lexer_advance v m (lexer p)\<rparr>"

definition current_type :: "Parser \<Rightarrow> TokenType" where
  "current_type p = tok_type (current (lexer p))"

subsection \<open>The recursive-descent evaluator\<close>

text \<open>
  Each grammar rule of the C code is a function from the parser state to the value it returns
  and the state it leaves.  The rules call each other recursively and the C code bounds
  neither the nesting nor the loops, so each function takes a recursion budget: \<open>None\<close> says the
  budget ran out.  The \<^verbatim>\<open>while\<close> loops of \<^verbatim>\<open>parse_expression\<close>, \<^verbatim>\<open>parse_term\<close> and (Cocoa only)
  \<^verbatim>\<open>parse_factor\<close> are the functions \<open>expression_loop\<close>, \<open>term_loop\<close> and \<open>factor_loop\<close>, which
  carry the local variable \<open>left\<close>.
\<close>

text \<open>Only the Cocoa front-end has the loop in \<^verbatim>\<open>parse_factor\<close>.\<close>

definition implicit_multiplication :: "variant \<Rightarrow> bool" where
  "implicit_multiplication v \<longleftrightarrow> v = MAC"

text \<open>The test of that loop on the next token.\<close>

definition implicit_multiplicand :: "TokenType \<Rightarrow> bool" where
  "implicit_multiplicand next \<longleftrightarrow>
     next = TOKEN_PI \<or> next = TOKEN_E \<or> next = TOKEN_LPAREN \<or>
     next = TOKEN_SIN \<or> next = TOKEN_COS \<or> next = TOKEN_TAN \<or>
     next = TOKEN_SQRT \<or> next = TOKEN_LOG \<or> next = TOKEN_EXP \<or>
     next = TOKEN_ABS \<or> next = TOKEN_NUMBER"

function parse_expression :: "variant \<Rightarrow> libm \<Rightarrow> nat \<Rightarrow> Parser \<Rightarrow> (real \<times> Parser) option"
  and expression_loop :: "variant \<Rightarrow> libm \<Rightarrow> nat \<Rightarrow> real \<Rightarrow> Parser \<Rightarrow> (real \<times> Parser) option"
  and parse_term :: "variant \<Rightarrow> libm \<Rightarrow> nat \<Rightarrow> Parser \<Rightarrow> (real \<times> Parser) option"
  and term_loop :: "variant \<Rightarrow> libm \<Rightarrow> nat \<Rightarrow> real \<Rightarrow> Parser \<Rightarrow> (real \<times> Parser) option"
  and parse_factor :: "variant \<Rightarrow> libm \<Rightarrow> nat \<Rightarrow> Parser \<Rightarrow> (real \<times> Parser) option"
  and factor_loop :: "variant \<Rightarrow> libm \<Rightarrow> nat \<Rightarrow> real \<Rightarrow> Parser \<Rightarrow> (real \<times> Parser) option"
  and parse_power :: "variant \<Rightarrow> libm \<Rightarrow> nat \<Rightarrow> Parser \<Rightarrow> (real \<times> Parser) option"
  and parse_unary :: "variant \<Rightarrow> libm \<Rightarrow> nat \<Rightarrow> Parser \<Rightarrow> (real \<times> Parser) option"
  and parse_primary :: "variant \<Rightarrow> libm \<Rightarrow> nat \<Rightarrow> Parser \<Rightarrow> (real \<times> Parser) option"
where
  "parse_expression v m 0 p = None"
| "parse_expression v m (Suc n) p =
     (case parse_term v m n p of
        None \<Rightarrow> None
      | Some (left, p) \<Rightarrow> expression_loop v m n left p)"
| "expression_loop v m 0 left p = None"
| "expression_loop v m (Suc n) left p =
     (if \<not> has_error p then
        (if current_type p = TOKEN_PLUS then
           (case parse_term v m n (advance v m p) of
              None \<Rightarrow> None
            | Some (right, p) \<Rightarrow> expression_loop v m n (left + right) p)
         else if current_type p = TOKEN_MINUS then
           (case parse_term v m n (advance v m p) of
              None \<Rightarrow> None
            | Some (right, p) \<Rightarrow> expression_loop v m n (left - right) p)
         else Some (left, p))
      else Some (left, p))"
| "parse_term v m 0 p = None"
| "parse_term v m (Suc n) p =
     (case parse_factor v m n p of
        None \<Rightarrow> None
      | Some (left, p) \<Rightarrow> term_loop v m n left p)"
| "term_loop v m 0 left p = None"
| "term_loop v m (Suc n) left p =
     (if \<not> has_error p then
        (if current_type p = TOKEN_MULTIPLY then
           (case parse_factor v m n (advance v m p) of
              None \<Rightarrow> None
            | Some (right, p) \<Rightarrow> term_loop v m n (left * right) p)
         else if current_type p = TOKEN_DIVIDE then
           (case parse_factor v m n (advance v m p) of
              None \<Rightarrow> None
            | Some (right, p) \<Rightarrow>
                if right = 0 then Some (0, parser_error p (msg_division_by_zero v))
                else term_loop v m n (left / right) p)
         else if current_type p = TOKEN_MODULO then
           (case parse_factor v m n (advance v m p) of
              None \<Rightarrow> None
            | Some (right, p) \<Rightarrow>
                if right = 0 then Some (0, parser_error p (msg_modulo_by_zero v))
                else term_loop v m n (c_fmod m left right) p)
         else Some (left, p))
      else Some (left, p))"
| "parse_factor v m 0 p = None"
| "parse_factor v m (Suc n) p =
     (case parse_power v m n p of
        None \<Rightarrow> None
      | Some (left, p) \<Rightarrow>
          if implicit_multiplication v then factor_loop v m n left p else Some (left, p))"
| "factor_loop v m 0 left p = None"
| "factor_loop v m (Suc n) left p =
     (if \<not> has_error p then
        (if implicit_multiplicand (current_type p) then
           (case parse_power v m n p of
              None \<Rightarrow> None
            | Some (right, p) \<Rightarrow> factor_loop v m n (left * right) p)
         else Some (left, p))
      else Some (left, p))"
| "parse_power v m 0 p = None"
| "parse_power v m (Suc n) p =
     (case parse_unary v m n p of
        None \<Rightarrow> None
      | Some (left, p) \<Rightarrow>
          if \<not> has_error p \<and> current_type p = TOKEN_POWER then
            (case parse_power v m n (advance v m p) of
               None \<Rightarrow> None
             | Some (right, p) \<Rightarrow> Some (c_pow m left right, p))
          else Some (left, p))"
| "parse_unary v m 0 p = None"
| "parse_unary v m (Suc n) p =
     (if current_type p = TOKEN_MINUS then
        (case parse_unary v m n (advance v m p) of
           None \<Rightarrow> None
         | Some (x, p) \<Rightarrow> Some (- x, p))
      else if current_type p = TOKEN_PLUS then parse_unary v m n (advance v m p)
      else if current_type p = TOKEN_SIN then
        (case parse_primary v m n (advance v m p) of
           None \<Rightarrow> None
         | Some (x, p) \<Rightarrow> Some (c_sin m x, p))
      else if current_type p = TOKEN_COS then
        (case parse_primary v m n (advance v m p) of
           None \<Rightarrow> None
         | Some (x, p) \<Rightarrow> Some (c_cos m x, p))
      else if current_type p = TOKEN_TAN then
        (case parse_primary v m n (advance v m p) of
           None \<Rightarrow> None
         | Some (x, p) \<Rightarrow> Some (c_tan m x, p))
      else if current_type p = TOKEN_SQRT then
        (case parse_primary v m n (advance v m p) of
           None \<Rightarrow> None
         | Some (value, p) \<Rightarrow>
             if value < 0 then Some (0, parser_error p (msg_sqrt_negative v))
             else Some (c_sqrt m value, p))
      else if current_type p = TOKEN_LOG then
        (case parse_primary v m n (advance v m p) of
           None \<Rightarrow> None
         | Some (value, p) \<Rightarrow>
             if value \<le> 0 then Some (0, parser_error p (msg_log_non_positive v))
             else Some (c_log m value, p))
      else if current_type p = TOKEN_EXP then
        (case parse_primary v m n (advance v m p) of
           None \<Rightarrow> None
         | Some (x, p) \<Rightarrow> Some (c_exp m x, p))
      else if current_type p = TOKEN_ABS then
        (case parse_primary v m n (advance v m p) of
           None \<Rightarrow> None
         | Some (x, p) \<Rightarrow> Some (c_fabs m x, p))
      else parse_primary v m n p)"
| "parse_primary v m 0 p = None"
| "parse_primary v m (Suc n) p =
     (let token = current (lexer p)
      in if tok_type token = TOKEN_NUMBER \<or> tok_type token = TOKEN_PI \<or> tok_type token = TOKEN_E
           then Some (tok_value token, advance v m p)
         else if tok_type token = TOKEN_LPAREN then
           (case parse_expression v m n (advance v m p) of
              None \<Rightarrow> None
            | Some (value, p) \<Rightarrow>
                if current_type p \<noteq> TOKEN_RPAREN
                  then Some (0, parser_error p (msg_missing_paren v))
                else Some (value, advance v m p))
         else if tok_type token = TOKEN_EOF
           then Some (0, parser_error p (msg_unexpected_end v))
         else if tok_type token = TOKEN_ERROR
           then Some (0, parser_error p (tok_text token))
         else Some (0, parser_error p (msg_unexpected_token v @ tok_text token)))"
  apply pat_completeness
  apply (simp_all only: prod.inject sum.inject nat.distinct nat.inject simp_thms sum.distinct)
  done
termination
  by (relation "measure (\<lambda>x. case x of
        Inl (Inl (Inl (v, m, n, p))) \<Rightarrow> n
      | Inl (Inl (Inr (v, m, n, l, p))) \<Rightarrow> n
      | Inl (Inr (Inl (v, m, n, p))) \<Rightarrow> n
      | Inl (Inr (Inr (v, m, n, l, p))) \<Rightarrow> n
      | Inr (Inl (Inl (v, m, n, p))) \<Rightarrow> n
      | Inr (Inl (Inr (v, m, n, l, p))) \<Rightarrow> n
      | Inr (Inr (Inl (v, m, n, p))) \<Rightarrow> n
      | Inr (Inr (Inr (Inl (v, m, n, p)))) \<Rightarrow> n
      | Inr (Inr (Inr (Inr (v, m, n, p)))) \<Rightarrow> n)") simp_all

lemmas parse_simps =
  parse_expression.simps expression_loop.simps parse_term.simps term_loop.simps
  parse_factor.simps factor_loop.simps parse_power.simps parse_unary.simps parse_primary.simps

declare parse_simps [simp del]

text \<open>
  The budget \<open>evaluate\<close> gives the top-level rule.  It is proved below to be enough for every
  input (\<open>evaluate_terminates\<close>), and a run that succeeds with some budget gives the same
  result with any larger one (\<open>parse_fuel_mono\<close>).
\<close>

definition evaluate_fuel :: "string \<Rightarrow> nat" where
  "evaluate_fuel expression = 8 * (length expression + 1) + 8"

text \<open>
  \<^verbatim>\<open>evaluate\<close>: \<open>Inl\<close> is the error outcome with the message in \<^verbatim>\<open>parser.error\<close> (printed by the
  REPL, copied to the caller's buffer by the other front-ends; the C function then returns 0),
  \<open>Inr\<close> the numeric result.
\<close>

definition finish :: "variant \<Rightarrow> real \<times> Parser \<Rightarrow> string + real" where
  "finish v r =
     (case r of (result, parser) \<Rightarrow>
        (let parser =
               (if \<not> has_error parser \<and> current_type parser \<noteq> TOKEN_EOF
                then parser_error parser (msg_extra_tokens v) else parser)
         in if has_error parser then Inl (error parser) else Inr result))"

definition evaluate :: "variant \<Rightarrow> libm \<Rightarrow> string \<Rightarrow> (string + real) option" where
  "evaluate v m expression =
     (let parser = parser_init v m (lexer_init expression)
      in map_option (finish v) (parse_expression v m (evaluate_fuel expression) parser))"

subsection \<open>An exact instance of the C library\<close>

text \<open>
  For evaluating concrete inputs the library parameter is instantiated with the exact real
  functions.  It is an idealisation, used on inputs where the code computes without rounding:
  \<^item> \<open>atof\<close> gives the exact value of a decimal numeral (digits, an optional dot, digits: the
    only texts the lexer hands to it), where C gives the nearest double; the two agree on the
    numerals that are doubles, such as the integers and \<^verbatim>\<open>4.5\<close>;
  \<^item> \<open>fmod x y\<close> is \<open>x - n * y\<close> with \<open>n\<close> the quotient truncated towards zero;
  \<^item> \<open>pow x y\<close> is the power with an integer exponent, and \<open>x powr y\<close> otherwise.  It is the
    C function where that has a finite real value.  Where C gives an infinity or NaN (zero to a
    negative power, a negative base with an exponent that is not an integer) no real number is
    right and the value here means nothing;
  \<^item> the overlapping \<^verbatim>\<open>sprintf\<close> gives the message its format string describes.
\<close>

definition digit_val :: "char \<Rightarrow> nat" where
  "digit_val c = of_char c - 48"

definition decimal_val :: "string \<Rightarrow> nat" where
  "decimal_val ds = foldl (\<lambda>a c. 10 * a + digit_val c) 0 ds"

definition ideal_atof :: "string \<Rightarrow> real" where
  "ideal_atof s =
     (let ip = takeWhile isdigit s;
          r = dropWhile isdigit s;
          fp = (if r \<noteq> [] \<and> hd r = CHR ''.'' then takeWhile isdigit (tl r) else [])
      in real (decimal_val ip) + real (decimal_val fp) / 10 ^ length fp)"

definition ideal_fmod :: "real \<Rightarrow> real \<Rightarrow> real" where
  "ideal_fmod x y = x - y * (sgn (x / y) * of_int \<lfloor>\<bar>x / y\<bar>\<rfloor>)"

definition ideal_pow :: "real \<Rightarrow> real \<Rightarrow> real" where
  "ideal_pow x y =
     (if y = of_int \<lfloor>y\<rfloor> then (if 0 \<le> y then x ^ nat \<lfloor>y\<rfloor> else 1 / x ^ nat \<lfloor>- y\<rfloor>)
      else x powr y)"

definition ideal_libm :: libm where
  "ideal_libm =
     \<lparr>c_atof = ideal_atof, c_sin = sin, c_cos = cos, c_tan = tan, c_sqrt = sqrt, c_log = ln,
      c_exp = exp, c_fabs = abs, c_pow = ideal_pow, c_fmod = ideal_fmod,
      M_PI = pi, M_E = exp 1, c_sprintf_overlap = (@)\<rparr>"

subsection \<open>Number patterns\<close>

text \<open>
  The pattern the specification gives for a number token, \<^verbatim>\<open>[0-9]+(\.[0-9]+)?\<close>, written after
  the specification's words and not after the code.
\<close>

definition spec_number_pattern :: "string \<Rightarrow> bool" where
  "spec_number_pattern s =
     (let ip = takeWhile isdigit s; r = dropWhile isdigit s
      in ip \<noteq> [] \<and> (r = [] \<or> (hd r = CHR ''.'' \<and> tl r \<noteq> [] \<and> list_all isdigit (tl r))))"

text \<open>
  The pattern the lexer accepts: \<^verbatim>\<open>[0-9]+(\.[0-9]*)?\<close> or \<^verbatim>\<open>\.[0-9]+\<close>, that is, digits around
  at most one dot, with a digit on at least one side of it.
\<close>

definition lexer_number_pattern :: "string \<Rightarrow> bool" where
  "lexer_number_pattern s =
     (let ip = takeWhile isdigit s; r = dropWhile isdigit s
      in (r = [] \<and> ip \<noteq> []) \<or>
         (r \<noteq> [] \<and> hd r = CHR ''.'' \<and> list_all isdigit (tl r) \<and> (ip \<noteq> [] \<or> tl r \<noteq> [])))"

subsection \<open>A measure on parser states\<close>

text \<open>
  The number of characters the cursor has not passed, plus one while the current token is not
  the end marker.  Every \<^verbatim>\<open>lexer_advance\<close> from a token other than the end marker makes it
  smaller.
\<close>

definition remaining :: "Parser \<Rightarrow> nat" where
  "remaining p =
     length (input (lexer p)) - position (lexer p) +
     (if current_type p = TOKEN_EOF then 0 else 1)"

text \<open>
  Where the token read by \<^verbatim>\<open>lexer_next_token\<close> from the state \<open>l\<close> starts, and the characters
  it covers when the lexer is left in the state \<open>l'\<close>.
\<close>

definition token_start :: "Lexer \<Rightarrow> nat" where
  "token_start l = skip_whitespace_loop (input l) (position l)"

definition matched_text :: "Lexer \<Rightarrow> Lexer \<Rightarrow> string" where
  "matched_text l l' = take (position l' - token_start l) (drop (token_start l) (input l))"

subsection \<open>A reference evaluator: the first failure ends the evaluation\<close>

text \<open>
  The specification describes the error handling as a result type: a rule either returns a
  value or fails, and a failure of a sub-rule is the failure of the rule that called it.  The
  functions \<open>spec_parse_expression\<close> ... \<open>spec_parse_primary\<close> are the grammar rules written in
  that way, for comparison with the rules of the C code above.  They are not code of the
  repository.  Tokens, operators, checks and messages are those of the C rules; a failure
  \<open>Inl q\<close> carries the state \<open>q\<close> in which \<^verbatim>\<open>parser_error\<close> has recorded the message, and no
  rule continues after a failure, so no message is ever replaced.
\<close>

function spec_parse_expression :: "variant \<Rightarrow> libm \<Rightarrow> nat \<Rightarrow> Parser \<Rightarrow> (Parser + real \<times> Parser) option"
  and spec_expression_loop :: "variant \<Rightarrow> libm \<Rightarrow> nat \<Rightarrow> real \<Rightarrow> Parser \<Rightarrow> (Parser + real \<times> Parser) option"
  and spec_parse_term :: "variant \<Rightarrow> libm \<Rightarrow> nat \<Rightarrow> Parser \<Rightarrow> (Parser + real \<times> Parser) option"
  and spec_term_loop :: "variant \<Rightarrow> libm \<Rightarrow> nat \<Rightarrow> real \<Rightarrow> Parser \<Rightarrow> (Parser + real \<times> Parser) option"
  and spec_parse_factor :: "variant \<Rightarrow> libm \<Rightarrow> nat \<Rightarrow> Parser \<Rightarrow> (Parser + real \<times> Parser) option"
  and spec_factor_loop :: "variant \<Rightarrow> libm \<Rightarrow> nat \<Rightarrow> real \<Rightarrow> Parser \<Rightarrow> (Parser + real \<times> Parser) option"
  and spec_parse_power :: "variant \<Rightarrow> libm \<Rightarrow> nat \<Rightarrow> Parser \<Rightarrow> (Parser + real \<times> Parser) option"
  and spec_parse_unary :: "variant \<Rightarrow> libm \<Rightarrow> nat \<Rightarrow> Parser \<Rightarrow> (Parser + real \<times> Parser) option"
  and spec_parse_primary :: "variant \<Rightarrow> libm \<Rightarrow> nat \<Rightarrow> Parser \<Rightarrow> (Parser + real \<times> Parser) option"
where
  "spec_parse_expression v m 0 p = None"
| "spec_parse_expression v m (Suc n) p =
     (case spec_parse_term v m n p of
        None \<Rightarrow> None
      | Some (Inl q) \<Rightarrow> Some (Inl q)
      | Some (Inr (left, p)) \<Rightarrow> spec_expression_loop v m n left p)"
| "spec_expression_loop v m 0 left p = None"
| "spec_expression_loop v m (Suc n) left p =
     (if current_type p = TOKEN_PLUS then
        (case spec_parse_term v m n (advance v m p) of
           None \<Rightarrow> None
         | Some (Inl q) \<Rightarrow> Some (Inl q)
         | Some (Inr (right, p)) \<Rightarrow> spec_expression_loop v m n (left + right) p)
      else if current_type p = TOKEN_MINUS then
        (case spec_parse_term v m n (advance v m p) of
           None \<Rightarrow> None
         | Some (Inl q) \<Rightarrow> Some (Inl q)
         | Some (Inr (right, p)) \<Rightarrow> spec_expression_loop v m n (left - right) p)
      else Some (Inr (left, p)))"
| "spec_parse_term v m 0 p = None"
| "spec_parse_term v m (Suc n) p =
     (case spec_parse_factor v m n p of
        None \<Rightarrow> None
      | Some (Inl q) \<Rightarrow> Some (Inl q)
      | Some (Inr (left, p)) \<Rightarrow> spec_term_loop v m n left p)"
| "spec_term_loop v m 0 left p = None"
| "spec_term_loop v m (Suc n) left p =
     (if current_type p = TOKEN_MULTIPLY then
        (case spec_parse_factor v m n (advance v m p) of
           None \<Rightarrow> None
         | Some (Inl q) \<Rightarrow> Some (Inl q)
         | Some (Inr (right, p)) \<Rightarrow> spec_term_loop v m n (left * right) p)
      else if current_type p = TOKEN_DIVIDE then
        (case spec_parse_factor v m n (advance v m p) of
           None \<Rightarrow> None
         | Some (Inl q) \<Rightarrow> Some (Inl q)
         | Some (Inr (right, p)) \<Rightarrow>
             if right = 0 then Some (Inl (parser_error p (msg_division_by_zero v)))
             else spec_term_loop v m n (left / right) p)
      else if current_type p = TOKEN_MODULO then
        (case spec_parse_factor v m n (advance v m p) of
           None \<Rightarrow> None
         | Some (Inl q) \<Rightarrow> Some (Inl q)
         | Some (Inr (right, p)) \<Rightarrow>
             if right = 0 then Some (Inl (parser_error p (msg_modulo_by_zero v)))
             else spec_term_loop v m n (c_fmod m left right) p)
      else Some (Inr (left, p)))"
| "spec_parse_factor v m 0 p = None"
| "spec_parse_factor v m (Suc n) p =
     (case spec_parse_power v m n p of
        None \<Rightarrow> None
      | Some (Inl q) \<Rightarrow> Some (Inl q)
      | Some (Inr (left, p)) \<Rightarrow>
          if implicit_multiplication v then spec_factor_loop v m n left p
          else Some (Inr (left, p)))"
| "spec_factor_loop v m 0 left p = None"
| "spec_factor_loop v m (Suc n) left p =
     (if implicit_multiplicand (current_type p) then
        (case spec_parse_power v m n p of
           None \<Rightarrow> None
         | Some (Inl q) \<Rightarrow> Some (Inl q)
         | Some (Inr (right, p)) \<Rightarrow> spec_factor_loop v m n (left * right) p)
      else Some (Inr (left, p)))"
| "spec_parse_power v m 0 p = None"
| "spec_parse_power v m (Suc n) p =
     (case spec_parse_unary v m n p of
        None \<Rightarrow> None
      | Some (Inl q) \<Rightarrow> Some (Inl q)
      | Some (Inr (left, p)) \<Rightarrow>
          if current_type p = TOKEN_POWER then
            (case spec_parse_power v m n (advance v m p) of
               None \<Rightarrow> None
             | Some (Inl q) \<Rightarrow> Some (Inl q)
             | Some (Inr (right, p)) \<Rightarrow> Some (Inr (c_pow m left right, p)))
          else Some (Inr (left, p)))"
| "spec_parse_unary v m 0 p = None"
| "spec_parse_unary v m (Suc n) p =
     (if current_type p = TOKEN_MINUS then
        (case spec_parse_unary v m n (advance v m p) of
           None \<Rightarrow> None
         | Some (Inl q) \<Rightarrow> Some (Inl q)
         | Some (Inr (x, p)) \<Rightarrow> Some (Inr (- x, p)))
      else if current_type p = TOKEN_PLUS then spec_parse_unary v m n (advance v m p)
      else if current_type p = TOKEN_SIN then
        (case spec_parse_primary v m n (advance v m p) of
           None \<Rightarrow> None
         | Some (Inl q) \<Rightarrow> Some (Inl q)
         | Some (Inr (x, p)) \<Rightarrow> Some (Inr (c_sin m x, p)))
      else if current_type p = TOKEN_COS then
        (case spec_parse_primary v m n (advance v m p) of
           None \<Rightarrow> None
         | Some (Inl q) \<Rightarrow> Some (Inl q)
         | Some (Inr (x, p)) \<Rightarrow> Some (Inr (c_cos m x, p)))
      else if current_type p = TOKEN_TAN then
        (case spec_parse_primary v m n (advance v m p) of
           None \<Rightarrow> None
         | Some (Inl q) \<Rightarrow> Some (Inl q)
         | Some (Inr (x, p)) \<Rightarrow> Some (Inr (c_tan m x, p)))
      else if current_type p = TOKEN_SQRT then
        (case spec_parse_primary v m n (advance v m p) of
           None \<Rightarrow> None
         | Some (Inl q) \<Rightarrow> Some (Inl q)
         | Some (Inr (value, p)) \<Rightarrow>
             if value < 0 then Some (Inl (parser_error p (msg_sqrt_negative v)))
             else Some (Inr (c_sqrt m value, p)))
      else if current_type p = TOKEN_LOG then
        (case spec_parse_primary v m n (advance v m p) of
           None \<Rightarrow> None
         | Some (Inl q) \<Rightarrow> Some (Inl q)
         | Some (Inr (value, p)) \<Rightarrow>
             if value \<le> 0 then Some (Inl (parser_error p (msg_log_non_positive v)))
             else Some (Inr (c_log m value, p)))
      else if current_type p = TOKEN_EXP then
        (case spec_parse_primary v m n (advance v m p) of
           None \<Rightarrow> None
         | Some (Inl q) \<Rightarrow> Some (Inl q)
         | Some (Inr (x, p)) \<Rightarrow> Some (Inr (c_exp m x, p)))
      else if current_type p = TOKEN_ABS then
        (case spec_parse_primary v m n (advance v m p) of
           None \<Rightarrow> None
         | Some (Inl q) \<Rightarrow> Some (Inl q)
         | Some (Inr (x, p)) \<Rightarrow> Some (Inr (c_fabs m x, p)))
      else spec_parse_primary v m n p)"
| "spec_parse_primary v m 0 p = None"
| "spec_parse_primary v m (Suc n) p =
     (let token = current (lexer p)
      in if tok_type token = TOKEN_NUMBER \<or> tok_type token = TOKEN_PI \<or> tok_type token = TOKEN_E
           then Some (Inr (tok_value token, advance v m p))
         else if tok_type token = TOKEN_LPAREN then
           (case spec_parse_expression v m n (advance v m p) of
              None \<Rightarrow> None
            | Some (Inl q) \<Rightarrow> Some (Inl q)
            | Some (Inr (value, p)) \<Rightarrow>
                if current_type p \<noteq> TOKEN_RPAREN
                  then Some (Inl (parser_error p (msg_missing_paren v)))
                else Some (Inr (value, advance v m p)))
         else if tok_type token = TOKEN_EOF
           then Some (Inl (parser_error p (msg_unexpected_end v)))
         else if tok_type token = TOKEN_ERROR
           then Some (Inl (parser_error p (tok_text token)))
         else Some (Inl (parser_error p (msg_unexpected_token v @ tok_text token))))"
  apply pat_completeness
  apply (simp_all only: prod.inject sum.inject nat.distinct nat.inject simp_thms sum.distinct)
  done
termination
  by (relation "measure (\<lambda>x. case x of
        Inl (Inl (Inl (v, m, n, p))) \<Rightarrow> n
      | Inl (Inl (Inr (v, m, n, l, p))) \<Rightarrow> n
      | Inl (Inr (Inl (v, m, n, p))) \<Rightarrow> n
      | Inl (Inr (Inr (v, m, n, l, p))) \<Rightarrow> n
      | Inr (Inl (Inl (v, m, n, p))) \<Rightarrow> n
      | Inr (Inl (Inr (v, m, n, l, p))) \<Rightarrow> n
      | Inr (Inr (Inl (v, m, n, p))) \<Rightarrow> n
      | Inr (Inr (Inr (Inl (v, m, n, p)))) \<Rightarrow> n
      | Inr (Inr (Inr (Inr (v, m, n, p)))) \<Rightarrow> n)") simp_all

lemmas spec_parse_simps =
  spec_parse_expression.simps spec_expression_loop.simps spec_parse_term.simps
  spec_term_loop.simps spec_parse_factor.simps spec_factor_loop.simps spec_parse_power.simps
  spec_parse_unary.simps spec_parse_primary.simps

declare spec_parse_simps [simp del]





subsection \<open>The grammar of the specification, with values\<close>

text \<open>
  The specification gives the grammar of expressions and says that \<open>evaluate\<close> computes their
  value by the usual rules.  For comparison with the C rules, the definitions of this
  subsection write that down; they are not code of the repository.  An expression is a tree;
  its value and the condition that no division or modulo by zero and no \<^verbatim>\<open>sqrt\<close> or \<^verbatim>\<open>log\<close> outside
  its domain occurs in it are defined on the tree.  The relation \<open>derives v m r p e p'\<close> says
  that the tokens from the state \<open>p\<close> up to the state \<open>p'\<close> form the expression \<open>e\<close> according to
  the rule \<open>r\<close> of the grammar:

  \<^verbatim>\<open>primary   := NUMBER | PI | E | '(' expression ')'\<close>

  \<^verbatim>\<open>unary     := ('+' | '-') unary | ('sin'|'cos'|'tan'|'sqrt'|'log'|'exp'|'abs') primary | primary\<close>

  \<^verbatim>\<open>power     := unary ('^' power)?\<close>

  \<^verbatim>\<open>factor    := power\<close>, and with implicit multiplication \<^verbatim>\<open>power power*\<close>, a further power
  starting with a number, a constant, a parenthesis or a function name

  \<^verbatim>\<open>term      := factor (('*' | '/' | '%') factor)*\<close>

  \<^verbatim>\<open>expression:= term (('+' | '-') term)*\<close>

  The repetitions group to the left, \<^verbatim>\<open>^\<close> to the right.  The rules \<open>R_expression_rest e\<close>,
  \<open>R_term_rest e\<close> and \<open>R_factor_rest e\<close> are the repetitions, after the expression \<open>e\<close>.
\<close>

datatype func = F_sin | F_cos | F_tan | F_sqrt | F_log | F_exp | F_abs

datatype expr =
    E_const real
  | E_neg expr
  | E_pos expr
  | E_call func expr
  | E_pow expr expr
  | E_mul expr expr
  | E_div expr expr
  | E_mod expr expr
  | E_add expr expr
  | E_sub expr expr

definition function_of :: "TokenType \<Rightarrow> func option" where
  "function_of t =
     (if t = TOKEN_SIN then Some F_sin else if t = TOKEN_COS then Some F_cos
      else if t = TOKEN_TAN then Some F_tan else if t = TOKEN_SQRT then Some F_sqrt
      else if t = TOKEN_LOG then Some F_log else if t = TOKEN_EXP then Some F_exp
      else if t = TOKEN_ABS then Some F_abs else None)"

fun call_value :: "libm \<Rightarrow> func \<Rightarrow> real \<Rightarrow> real" where
  "call_value m F_sin x = c_sin m x"
| "call_value m F_cos x = c_cos m x"
| "call_value m F_tan x = c_tan m x"
| "call_value m F_sqrt x = c_sqrt m x"
| "call_value m F_log x = c_log m x"
| "call_value m F_exp x = c_exp m x"
| "call_value m F_abs x = c_fabs m x"

fun expr_value :: "libm \<Rightarrow> expr \<Rightarrow> real" where
  "expr_value m (E_const c) = c"
| "expr_value m (E_neg a) = - expr_value m a"
| "expr_value m (E_pos a) = expr_value m a"
| "expr_value m (E_call f a) = call_value m f (expr_value m a)"
| "expr_value m (E_pow a b) = c_pow m (expr_value m a) (expr_value m b)"
| "expr_value m (E_mul a b) = expr_value m a * expr_value m b"
| "expr_value m (E_div a b) = expr_value m a / expr_value m b"
| "expr_value m (E_mod a b) = c_fmod m (expr_value m a) (expr_value m b)"
| "expr_value m (E_add a b) = expr_value m a + expr_value m b"
| "expr_value m (E_sub a b) = expr_value m a - expr_value m b"


datatype rule =
    R_expression | R_expression_rest expr
  | R_term | R_term_rest expr
  | R_factor | R_factor_rest expr
  | R_power | R_unary | R_primary

inductive derives :: "variant \<Rightarrow> libm \<Rightarrow> rule \<Rightarrow> Parser \<Rightarrow> expr \<Rightarrow> Parser \<Rightarrow> bool"
  for v :: variant and m :: libm
where
  primary_constant:
    "tok_type (current (lexer p)) \<in> {TOKEN_NUMBER, TOKEN_PI, TOKEN_E} \<Longrightarrow>
     derives v m R_primary p (E_const (tok_value (current (lexer p)))) (advance v m p)"
| primary_paren:
    "current_type p = TOKEN_LPAREN \<Longrightarrow> derives v m R_expression (advance v m p) e p1 \<Longrightarrow>
     current_type p1 = TOKEN_RPAREN \<Longrightarrow>
     derives v m R_primary p e (advance v m p1)"
| unary_minus:
    "current_type p = TOKEN_MINUS \<Longrightarrow> derives v m R_unary (advance v m p) e p1 \<Longrightarrow>
     derives v m R_unary p (E_neg e) p1"
| unary_plus:
    "current_type p = TOKEN_PLUS \<Longrightarrow> derives v m R_unary (advance v m p) e p1 \<Longrightarrow>
     derives v m R_unary p (E_pos e) p1"
| unary_call:
    "function_of (current_type p) = Some f \<Longrightarrow> derives v m R_primary (advance v m p) e p1 \<Longrightarrow>
     derives v m R_unary p (E_call f e) p1"
| unary_primary:
    "derives v m R_primary p e p1 \<Longrightarrow> derives v m R_unary p e p1"
| power_unary:
    "derives v m R_unary p e p1 \<Longrightarrow> derives v m R_power p e p1"
| power_power:
    "derives v m R_unary p a p1 \<Longrightarrow> current_type p1 = TOKEN_POWER \<Longrightarrow>
     derives v m R_power (advance v m p1) b p2 \<Longrightarrow>
     derives v m R_power p (E_pow a b) p2"
| factor:
    "derives v m R_power p a p1 \<Longrightarrow> derives v m (R_factor_rest a) p1 e p2 \<Longrightarrow>
     derives v m R_factor p e p2"
| factor_rest_end:
    "derives v m (R_factor_rest a) p a p"
| factor_rest_implicit:
    "implicit_multiplication v \<Longrightarrow> implicit_multiplicand (current_type p) \<Longrightarrow>
     derives v m R_power p b p1 \<Longrightarrow> derives v m (R_factor_rest (E_mul a b)) p1 e p2 \<Longrightarrow>
     derives v m (R_factor_rest a) p e p2"
| term_factor:
    "derives v m R_factor p a p1 \<Longrightarrow> derives v m (R_term_rest a) p1 e p2 \<Longrightarrow>
     derives v m R_term p e p2"
| term_rest_end:
    "derives v m (R_term_rest a) p a p"
| term_rest_multiply:
    "current_type p = TOKEN_MULTIPLY \<Longrightarrow> derives v m R_factor (advance v m p) b p1 \<Longrightarrow>
     derives v m (R_term_rest (E_mul a b)) p1 e p2 \<Longrightarrow>
     derives v m (R_term_rest a) p e p2"
| term_rest_divide:
    "current_type p = TOKEN_DIVIDE \<Longrightarrow> derives v m R_factor (advance v m p) b p1 \<Longrightarrow>
     derives v m (R_term_rest (E_div a b)) p1 e p2 \<Longrightarrow>
     derives v m (R_term_rest a) p e p2"
| term_rest_modulo:
    "current_type p = TOKEN_MODULO \<Longrightarrow> derives v m R_factor (advance v m p) b p1 \<Longrightarrow>
     derives v m (R_term_rest (E_mod a b)) p1 e p2 \<Longrightarrow>
     derives v m (R_term_rest a) p e p2"
| expression:
    "derives v m R_term p a p1 \<Longrightarrow> derives v m (R_expression_rest a) p1 e p2 \<Longrightarrow>
     derives v m R_expression p e p2"
| expression_rest_end:
    "derives v m (R_expression_rest a) p a p"
| expression_rest_plus:
    "current_type p = TOKEN_PLUS \<Longrightarrow> derives v m R_term (advance v m p) b p1 \<Longrightarrow>
     derives v m (R_expression_rest (E_add a b)) p1 e p2 \<Longrightarrow>
     derives v m (R_expression_rest a) p e p2"
| expression_rest_minus:
    "current_type p = TOKEN_MINUS \<Longrightarrow> derives v m R_term (advance v m p) b p1 \<Longrightarrow>
     derives v m (R_expression_rest (E_sub a b)) p1 e p2 \<Longrightarrow>
     derives v m (R_expression_rest a) p e p2"






text \<open>The C function for a rule of the grammar; for a repetition, the loop of the function.\<close>

fun run :: "variant \<Rightarrow> libm \<Rightarrow> rule \<Rightarrow> nat \<Rightarrow> Parser \<Rightarrow> (real \<times> Parser) option" where
  "run v m R_primary n p = parse_primary v m n p"
| "run v m R_unary n p = parse_unary v m n p"
| "run v m R_power n p = parse_power v m n p"
| "run v m R_factor n p = parse_factor v m n p"
| "run v m (R_factor_rest a) n p =
     (if implicit_multiplication v then factor_loop v m n (expr_value m a) p
      else Some (expr_value m a, p))"
| "run v m R_term n p = parse_term v m n p"
| "run v m (R_term_rest a) n p = term_loop v m n (expr_value m a) p"
| "run v m R_expression n p = parse_expression v m n p"
| "run v m (R_expression_rest a) n p = expression_loop v m n (expr_value m a) p"

section \<open>Evaluating concrete inputs\<close>

text \<open>
  Rewrite rules that run the model on a literal input: the budget as a numeral, every
  definition unfolded, \<open>let\<close> evaluated argument first.
\<close>

lemma fuel_numeral:
  "parse_expression v m (numeral k) p = parse_expression v m (Suc (pred_numeral k)) p"
  "expression_loop v m (numeral k) left p = expression_loop v m (Suc (pred_numeral k)) left p"
  "parse_term v m (numeral k) p = parse_term v m (Suc (pred_numeral k)) p"
  "term_loop v m (numeral k) left p = term_loop v m (Suc (pred_numeral k)) left p"
  "parse_factor v m (numeral k) p = parse_factor v m (Suc (pred_numeral k)) p"
  "factor_loop v m (numeral k) left p = factor_loop v m (Suc (pred_numeral k)) left p"
  "parse_power v m (numeral k) p = parse_power v m (Suc (pred_numeral k)) p"
  "parse_unary v m (numeral k) p = parse_unary v m (Suc (pred_numeral k)) p"
  "parse_primary v m (numeral k) p = parse_primary v m (Suc (pred_numeral k)) p"
  by (simp_all only: numeral_eq_Suc)

lemmas parse_numeral =
  fuel_numeral(1)[unfolded parse_expression.simps]
  fuel_numeral(2)[unfolded expression_loop.simps]
  fuel_numeral(3)[unfolded parse_term.simps]
  fuel_numeral(4)[unfolded term_loop.simps]
  fuel_numeral(5)[unfolded parse_factor.simps]
  fuel_numeral(6)[unfolded factor_loop.simps]
  fuel_numeral(7)[unfolded parse_power.simps]
  fuel_numeral(8)[unfolded parse_unary.simps]
  fuel_numeral(9)[unfolded parse_primary.simps]

lemmas msg_defs =
  msg_unknown_identifier_def msg_unexpected_character_def msg_division_by_zero_def
  msg_modulo_by_zero_def msg_sqrt_negative_def msg_log_non_positive_def msg_missing_paren_def
  msg_unexpected_end_def msg_unexpected_token_def msg_extra_tokens_def

lemmas lex_defs =
  lexer_init_def lexer_advance_def lexer_next_token_def lexer_skip_whitespace_def
  lexer_read_number_def lexer_read_identifier_def token_text_def MAX_TOKEN_LEN_def char_at_def
  isspace_def isdigit_def isalpha_def
  skip_whitespace_loop.simps read_number_loop.simps read_identifier_loop.simps

lemmas eval_defs =
  evaluate_def evaluate_fuel_def finish_def parser_init_def advance_def current_type_def
  parser_error_def implicit_multiplication_def implicit_multiplicand_def lex_defs parse_numeral msg_defs Let_def

lemmas ideal_defs =
  ideal_libm_def ideal_atof_def ideal_fmod_def ideal_pow_def decimal_val_def digit_val_def

section \<open>General facts about the lexer and the parser\<close>

subsection \<open>The cursor only advances\<close>

lemma char_at_nonzero: "char_at s i \<noteq> CHR 0x00 \<Longrightarrow> i < length s"
  by (simp add: char_at_def split: if_splits)

lemma isdigit_nonzero: "isdigit c \<Longrightarrow> c \<noteq> CHR 0x00"
  by (auto simp: isdigit_def)

lemma isalpha_nonzero: "isalpha c \<Longrightarrow> c \<noteq> CHR 0x00"
  by (auto simp: isalpha_def)

lemma skip_whitespace_loop_ge: "i \<le> skip_whitespace_loop s i"
  by (induction s i rule: skip_whitespace_loop.induct) (subst skip_whitespace_loop.simps, auto)

lemma read_number_loop_ge: "i \<le> read_number_loop s i d"
  by (induction s i d rule: read_number_loop.induct) (subst read_number_loop.simps, auto)

lemma read_number_loop_le: "i \<le> length s \<Longrightarrow> read_number_loop s i d \<le> length s"
proof (induction s i d rule: read_number_loop.induct)
  case (1 s i has_dot)
  show ?case
  proof (cases "char_at s i \<noteq> CHR 0x00")
    case True
    then have "Suc i \<le> length s"
      using char_at_nonzero by fastforce
    with 1 True show ?thesis
      by (subst read_number_loop.simps) auto
  next
    case False
    with 1 show ?thesis
      by (subst read_number_loop.simps) auto
  qed
qed

lemma read_identifier_loop_ge: "i \<le> read_identifier_loop s i"
  by (induction s i rule: read_identifier_loop.induct) (subst read_identifier_loop.simps, auto)

lemma read_identifier_loop_le: "i \<le> length s \<Longrightarrow> read_identifier_loop s i \<le> length s"
proof (induction s i rule: read_identifier_loop.induct)
  case (1 s i)
  show ?case
  proof (cases "char_at s i \<noteq> CHR 0x00")
    case True
    then have "Suc i \<le> length s"
      using char_at_nonzero by fastforce
    with 1 True show ?thesis
      by (subst read_identifier_loop.simps) auto
  next
    case False
    with 1 show ?thesis
      by (subst read_identifier_loop.simps) auto
  qed
qed

lemma read_number_loop_first:
  "isdigit (char_at s i) \<or> (char_at s i = CHR ''.'' \<and> \<not> d) \<Longrightarrow> i < read_number_loop s i d"
  using read_number_loop_ge[of "Suc i" s] 
  by (subst read_number_loop.simps) (auto simp: isdigit_nonzero less_eq_Suc_le)

lemma read_identifier_loop_first:
  "isalpha (char_at s i) \<Longrightarrow> i < read_identifier_loop s i"
  using read_identifier_loop_ge[of "Suc i" s]
  by (subst read_identifier_loop.simps) (auto simp: isalpha_nonzero less_eq_Suc_le)

lemma lexer_next_token_position:
  assumes "lexer_next_token v m l = (t, l')"
  shows "input l' = input l \<and> current l' = current l \<and> position l \<le> position l' \<and>
         (tok_type t \<noteq> TOKEN_EOF \<longrightarrow> position l < position l' \<and> position l' \<le> length (input l))"
proof -
  define j where "j = skip_whitespace_loop (input l) (position l)"
  have j: "position l \<le> j"
    by (simp add: j_def skip_whitespace_loop_ge)
  show ?thesis
  proof (cases "char_at (input l) j = CHR 0x00")
    case True
    with assms j show ?thesis
      by (auto simp: lexer_next_token_def lexer_skip_whitespace_def Let_def j_def)
  next
    case False
    then have jl: "j < length (input l)"
      by (rule char_at_nonzero)
    show ?thesis
    proof (cases "isdigit (char_at (input l) j) \<or>
        (char_at (input l) j = CHR ''.'' \<and> isdigit (char_at (input l) (j + 1)))")
      case True
      then have "j < read_number_loop (input l) j False"
        by (intro read_number_loop_first) auto
      moreover have "read_number_loop (input l) j False \<le> length (input l)"
        using jl by (intro read_number_loop_le) simp
      ultimately show ?thesis
        using assms j True False
        by (auto simp: lexer_next_token_def lexer_skip_whitespace_def lexer_read_number_def
            Let_def j_def)
    next
      case nd: False
      show ?thesis
      proof (cases "isalpha (char_at (input l) j)")
        case True
        then have "j < read_identifier_loop (input l) j"
          by (rule read_identifier_loop_first)
        moreover have "read_identifier_loop (input l) j \<le> length (input l)"
          using jl by (intro read_identifier_loop_le) simp
        ultimately show ?thesis
          using assms j True False nd
          by (auto simp: lexer_next_token_def lexer_skip_whitespace_def lexer_read_identifier_def
              Let_def j_def split: if_splits)
      next
        case na: False
        with assms j jl False nd show ?thesis
          by (auto simp: lexer_next_token_def lexer_skip_whitespace_def Let_def j_def
              split: if_splits)
      qed
    qed
  qed
qed

lemma remaining_advance:
  assumes "current_type p \<noteq> TOKEN_EOF"
  shows "remaining (advance v m p) < remaining p"
proof -
  obtain t l' where tl: "lexer_next_token v m (lexer p) = (t, l')"
    by (cases "lexer_next_token v m (lexer p)")
  note pos = lexer_next_token_position[OF tl]
  have adv: "lexer (advance v m p) = l'\<lparr>current := t\<rparr>"
    by (simp add: advance_def lexer_advance_def tl)
  show ?thesis
    using assms pos
    by (auto simp: remaining_def adv current_type_def)
qed

lemma remaining_parser_error [simp]: "remaining (parser_error p msg) = remaining p"
  by (simp add: remaining_def parser_error_def current_type_def)

subsection \<open>The error flag is a latch\<close>

lemma has_error_parser_error [simp]: "has_error (parser_error p msg)"
  by (simp add: parser_error_def)

lemma lexer_parser_error [simp]: "lexer (parser_error p msg) = lexer p"
  by (simp add: parser_error_def)

lemma error_parser_error [simp]: "error (parser_error p msg) = take 255 msg"
  by (simp add: parser_error_def)

lemma current_type_parser_error [simp]: "current_type (parser_error p msg) = current_type p"
  by (simp add: current_type_def)

lemma has_error_advance [simp]: "has_error (advance v m p) = has_error p"
  by (simp add: advance_def)

lemma error_advance [simp]: "error (advance v m p) = error p"
  by (simp add: advance_def)

lemma lexer_advance_parser [simp]: "lexer (advance v m p) = lexer_advance v m (lexer p)"
  by (simp add: advance_def)

lemma has_error_latched:
  "(\<forall>p x p'. has_error p \<longrightarrow> parse_expression v m n p = Some (x, p') \<longrightarrow> has_error p') \<and>
   (\<forall>left p x p'. has_error p \<longrightarrow> expression_loop v m n left p = Some (x, p') \<longrightarrow> has_error p') \<and>
   (\<forall>p x p'. has_error p \<longrightarrow> parse_term v m n p = Some (x, p') \<longrightarrow> has_error p') \<and>
   (\<forall>left p x p'. has_error p \<longrightarrow> term_loop v m n left p = Some (x, p') \<longrightarrow> has_error p') \<and>
   (\<forall>p x p'. has_error p \<longrightarrow> parse_factor v m n p = Some (x, p') \<longrightarrow> has_error p') \<and>
   (\<forall>left p x p'. has_error p \<longrightarrow> factor_loop v m n left p = Some (x, p') \<longrightarrow> has_error p') \<and>
   (\<forall>p x p'. has_error p \<longrightarrow> parse_power v m n p = Some (x, p') \<longrightarrow> has_error p') \<and>
   (\<forall>p x p'. has_error p \<longrightarrow> parse_unary v m n p = Some (x, p') \<longrightarrow> has_error p') \<and>
   (\<forall>p x p'. has_error p \<longrightarrow> parse_primary v m n p = Some (x, p') \<longrightarrow> has_error p')"
proof (induction n)
  case 0
  show ?case by (simp add: parse_simps)
next
  case (Suc n)
  note e = Suc.IH[THEN conjunct1, rule_format]
  note el = Suc.IH[THEN conjunct2, THEN conjunct1, rule_format]
  note t = Suc.IH[THEN conjunct2, THEN conjunct2, THEN conjunct1, rule_format]
  note tl = Suc.IH[THEN conjunct2, THEN conjunct2, THEN conjunct2, THEN conjunct1, rule_format]
  note f = Suc.IH[THEN conjunct2, THEN conjunct2, THEN conjunct2, THEN conjunct2, THEN conjunct1, rule_format]
  note fl = Suc.IH[THEN conjunct2, THEN conjunct2, THEN conjunct2, THEN conjunct2, THEN conjunct2, THEN conjunct1, rule_format]
  note pw = Suc.IH[THEN conjunct2, THEN conjunct2, THEN conjunct2, THEN conjunct2, THEN conjunct2, THEN conjunct2, THEN conjunct1, rule_format]
  note u = Suc.IH[THEN conjunct2, THEN conjunct2, THEN conjunct2, THEN conjunct2, THEN conjunct2, THEN conjunct2, THEN conjunct2, THEN conjunct1, rule_format]
  note pr = Suc.IH[THEN conjunct2, THEN conjunct2, THEN conjunct2, THEN conjunct2, THEN conjunct2, THEN conjunct2, THEN conjunct2, THEN conjunct2, rule_format]
  show ?case
  proof (intro conjI allI impI)
    fix p x p'
    assume a: "has_error p" "parse_expression v m (Suc n) p = Some (x, p')"
    from a show "has_error p'"
      by (fastforce simp: parse_simps split: option.splits dest: t el)
  next
    fix left p x p'
    assume a: "has_error p" "expression_loop v m (Suc n) left p = Some (x, p')"
    from a show "has_error p'"
      by (simp add: parse_simps)
  next
    fix p x p'
    assume a: "has_error p" "parse_term v m (Suc n) p = Some (x, p')"
    from a show "has_error p'"
      by (fastforce simp: parse_simps split: option.splits dest: f tl)
  next
    fix left p x p'
    assume a: "has_error p" "term_loop v m (Suc n) left p = Some (x, p')"
    from a show "has_error p'"
      by (simp add: parse_simps)
  next
    fix p x p'
    assume a: "has_error p" "parse_factor v m (Suc n) p = Some (x, p')"
    from a show "has_error p'"
      by (fastforce simp: parse_simps split: option.splits if_splits dest: pw fl)
  next
    fix left p x p'
    assume a: "has_error p" "factor_loop v m (Suc n) left p = Some (x, p')"
    from a show "has_error p'"
      by (simp add: parse_simps)
  next
    fix p x p'
    assume a: "has_error p" "parse_power v m (Suc n) p = Some (x, p')"
    from a show "has_error p'"
      by (fastforce simp: parse_simps split: option.splits if_splits dest: u)
  next
    fix p x p'
    assume a: "has_error p" "parse_unary v m (Suc n) p = Some (x, p')"
    note u' = u[OF iffD2[OF has_error_advance]] and pr' = pr[OF iffD2[OF has_error_advance]]
    from a show "has_error p'"
      by (fastforce simp: parse_simps split: option.splits if_splits dest: u' pr' pr)
  next
    fix p x p'
    assume a: "has_error p" "parse_primary v m (Suc n) p = Some (x, p')"
    note e' = e[OF iffD2[OF has_error_advance]]
    from a show "has_error p'"
      by (fastforce simp: parse_simps Let_def split: option.splits if_splits dest: e')
  qed
qed

subsection \<open>More budget gives the same result\<close>

lemma fuel_Suc_e:
  assumes t: "\<And>p r. parse_term v m n p = Some r \<Longrightarrow> parse_term v m (Suc n) p = Some r"
    and el: "\<And>left p r. expression_loop v m n left p = Some r \<Longrightarrow> expression_loop v m (Suc n) left p = Some r"
    and a: "parse_expression v m (Suc n) p = Some r"
  shows "parse_expression v m (Suc (Suc n)) p = Some r"
  using a[unfolded parse_expression.simps]
  by (subst parse_expression.simps) (auto simp: Let_def split: option.splits if_splits dest!: t el)

lemma fuel_Suc_el:
  assumes t: "\<And>p r. parse_term v m n p = Some r \<Longrightarrow> parse_term v m (Suc n) p = Some r"
    and el: "\<And>left p r. expression_loop v m n left p = Some r \<Longrightarrow> expression_loop v m (Suc n) left p = Some r"
    and a: "expression_loop v m (Suc n) left p = Some r"
  shows "expression_loop v m (Suc (Suc n)) left p = Some r"
  using a[unfolded expression_loop.simps]
  by (subst expression_loop.simps) (auto simp: Let_def split: option.splits if_splits dest!: t el)

lemma fuel_Suc_t:
  assumes f: "\<And>p r. parse_factor v m n p = Some r \<Longrightarrow> parse_factor v m (Suc n) p = Some r"
    and tl: "\<And>left p r. term_loop v m n left p = Some r \<Longrightarrow> term_loop v m (Suc n) left p = Some r"
    and a: "parse_term v m (Suc n) p = Some r"
  shows "parse_term v m (Suc (Suc n)) p = Some r"
  using a[unfolded parse_term.simps]
  by (subst parse_term.simps) (auto simp: Let_def split: option.splits if_splits dest!: f tl)

lemma fuel_Suc_tl:
  assumes f: "\<And>p r. parse_factor v m n p = Some r \<Longrightarrow> parse_factor v m (Suc n) p = Some r"
    and tl: "\<And>left p r. term_loop v m n left p = Some r \<Longrightarrow> term_loop v m (Suc n) left p = Some r"
    and a: "term_loop v m (Suc n) left p = Some r"
  shows "term_loop v m (Suc (Suc n)) left p = Some r"
  using a[unfolded term_loop.simps]
  by (subst term_loop.simps) (auto simp: Let_def split: option.splits if_splits dest!: f tl)

lemma fuel_Suc_f:
  assumes pw: "\<And>p r. parse_power v m n p = Some r \<Longrightarrow> parse_power v m (Suc n) p = Some r"
    and fl: "\<And>left p r. factor_loop v m n left p = Some r \<Longrightarrow> factor_loop v m (Suc n) left p = Some r"
    and a: "parse_factor v m (Suc n) p = Some r"
  shows "parse_factor v m (Suc (Suc n)) p = Some r"
  using a[unfolded parse_factor.simps]
  by (subst parse_factor.simps) (auto simp: Let_def split: option.splits if_splits dest!: pw fl)

lemma fuel_Suc_fl:
  assumes pw: "\<And>p r. parse_power v m n p = Some r \<Longrightarrow> parse_power v m (Suc n) p = Some r"
    and fl: "\<And>left p r. factor_loop v m n left p = Some r \<Longrightarrow> factor_loop v m (Suc n) left p = Some r"
    and a: "factor_loop v m (Suc n) left p = Some r"
  shows "factor_loop v m (Suc (Suc n)) left p = Some r"
  using a[unfolded factor_loop.simps]
  by (subst factor_loop.simps) (auto simp: Let_def split: option.splits if_splits dest!: pw fl)

lemma fuel_Suc_pw:
  assumes u: "\<And>p r. parse_unary v m n p = Some r \<Longrightarrow> parse_unary v m (Suc n) p = Some r"
    and pw: "\<And>p r. parse_power v m n p = Some r \<Longrightarrow> parse_power v m (Suc n) p = Some r"
    and a: "parse_power v m (Suc n) p = Some r"
  shows "parse_power v m (Suc (Suc n)) p = Some r"
  using a[unfolded parse_power.simps]
  by (subst parse_power.simps) (auto simp: Let_def split: option.splits if_splits dest!: u pw)

lemma fuel_Suc_u:
  assumes u: "\<And>p r. parse_unary v m n p = Some r \<Longrightarrow> parse_unary v m (Suc n) p = Some r"
    and pr: "\<And>p r. parse_primary v m n p = Some r \<Longrightarrow> parse_primary v m (Suc n) p = Some r"
    and a: "parse_unary v m (Suc n) p = Some r"
  shows "parse_unary v m (Suc (Suc n)) p = Some r"
  using a[unfolded parse_unary.simps]
  by (subst parse_unary.simps) (auto simp: Let_def split: option.splits if_splits dest!: u pr)

lemma fuel_Suc_pr:
  assumes e: "\<And>p r. parse_expression v m n p = Some r \<Longrightarrow> parse_expression v m (Suc n) p = Some r"
    and a: "parse_primary v m (Suc n) p = Some r"
  shows "parse_primary v m (Suc (Suc n)) p = Some r"
  using a[unfolded parse_primary.simps]
  by (subst parse_primary.simps) (auto simp: Let_def split: option.splits if_splits dest!: e)

lemma fuel_Suc:
  "(\<forall>p r. parse_expression v m n p = Some r \<longrightarrow> parse_expression v m (Suc n) p = Some r) \<and>
   (\<forall>left p r. expression_loop v m n left p = Some r \<longrightarrow> expression_loop v m (Suc n) left p = Some r) \<and>
   (\<forall>p r. parse_term v m n p = Some r \<longrightarrow> parse_term v m (Suc n) p = Some r) \<and>
   (\<forall>left p r. term_loop v m n left p = Some r \<longrightarrow> term_loop v m (Suc n) left p = Some r) \<and>
   (\<forall>p r. parse_factor v m n p = Some r \<longrightarrow> parse_factor v m (Suc n) p = Some r) \<and>
   (\<forall>left p r. factor_loop v m n left p = Some r \<longrightarrow> factor_loop v m (Suc n) left p = Some r) \<and>
   (\<forall>p r. parse_power v m n p = Some r \<longrightarrow> parse_power v m (Suc n) p = Some r) \<and>
   (\<forall>p r. parse_unary v m n p = Some r \<longrightarrow> parse_unary v m (Suc n) p = Some r) \<and>
   (\<forall>p r. parse_primary v m n p = Some r \<longrightarrow> parse_primary v m (Suc n) p = Some r)"
proof (induction n)
  case 0
  show ?case by (simp add: parse_simps)
next
  case (Suc n)
  note e = Suc.IH[THEN conjunct1, rule_format]
  note el = Suc.IH[THEN conjunct2, THEN conjunct1, rule_format]
  note t = Suc.IH[THEN conjunct2, THEN conjunct2, THEN conjunct1, rule_format]
  note tl = Suc.IH[THEN conjunct2, THEN conjunct2, THEN conjunct2, THEN conjunct1, rule_format]
  note f = Suc.IH[THEN conjunct2, THEN conjunct2, THEN conjunct2, THEN conjunct2, THEN conjunct1, rule_format]
  note fl = Suc.IH[THEN conjunct2, THEN conjunct2, THEN conjunct2, THEN conjunct2, THEN conjunct2, THEN conjunct1, rule_format]
  note pw = Suc.IH[THEN conjunct2, THEN conjunct2, THEN conjunct2, THEN conjunct2, THEN conjunct2, THEN conjunct2, THEN conjunct1, rule_format]
  note u = Suc.IH[THEN conjunct2, THEN conjunct2, THEN conjunct2, THEN conjunct2, THEN conjunct2, THEN conjunct2, THEN conjunct2, THEN conjunct1, rule_format]
  note pr = Suc.IH[THEN conjunct2, THEN conjunct2, THEN conjunct2, THEN conjunct2, THEN conjunct2, THEN conjunct2, THEN conjunct2, THEN conjunct2, rule_format]
  show ?case
  proof (intro conjI allI impI)
    fix left p r
    show "parse_expression v m (Suc (Suc n)) p = Some r" if "parse_expression v m (Suc n) p = Some r" for p r
      using t el that by (rule fuel_Suc_e)
    show "expression_loop v m (Suc (Suc n)) left p = Some r" if "expression_loop v m (Suc n) left p = Some r" for left p r
      using t el that by (rule fuel_Suc_el)
    show "parse_term v m (Suc (Suc n)) p = Some r" if "parse_term v m (Suc n) p = Some r" for p r
      using f tl that by (rule fuel_Suc_t)
    show "term_loop v m (Suc (Suc n)) left p = Some r" if "term_loop v m (Suc n) left p = Some r" for left p r
      using f tl that by (rule fuel_Suc_tl)
    show "parse_factor v m (Suc (Suc n)) p = Some r" if "parse_factor v m (Suc n) p = Some r" for p r
      using pw fl that by (rule fuel_Suc_f)
    show "factor_loop v m (Suc (Suc n)) left p = Some r" if "factor_loop v m (Suc n) left p = Some r" for left p r
      using pw fl that by (rule fuel_Suc_fl)
    show "parse_power v m (Suc (Suc n)) p = Some r" if "parse_power v m (Suc n) p = Some r" for p r
      using u pw that by (rule fuel_Suc_pw)
    show "parse_unary v m (Suc (Suc n)) p = Some r" if "parse_unary v m (Suc n) p = Some r" for p r
      using u pr that by (rule fuel_Suc_u)
    show "parse_primary v m (Suc (Suc n)) p = Some r" if "parse_primary v m (Suc n) p = Some r" for p r
      using e that by (rule fuel_Suc_pr)
  qed
qed

lemma parse_fuel_mono:
  assumes "parse_expression v m n p = Some r" and "n \<le> n'"
  shows "parse_expression v m n' p = Some r"
proof -
  have step: "parse_expression v m k p = Some r" if "parse_expression v m j p = Some r" "k = Suc j"
    for j k
    using that fuel_Suc[of v m j, THEN conjunct1, rule_format, of p r] by simp
  have "parse_expression v m (n + k) p = Some r" for k
  proof (induction k)
    case 0
    from assms(1) show ?case by simp
  next
    case (Suc k)
    then show ?case by (rule step) simp
  qed
  from this[of "n' - n"] assms(2) show ?thesis
    by simp
qed


subsection \<open>The budget of \<open>evaluate\<close> is enough\<close>

text \<open>
  Every rule returns once its budget is eight times the measure of the state plus its rank
  in the chain of calls, and it leaves a state whose measure is not larger; unless it records
  an error the measure is smaller (each rule consumes a token).
\<close>

lemma parse_total:
  "(\<forall>p. 8 * remaining p + 7 \<le> n \<longrightarrow>
      (\<exists>x p'. parse_expression v m n p = Some (x, p') \<and> remaining p' \<le> remaining p \<and>
         (has_error p' \<or> remaining p' < remaining p))) \<and>
   (\<forall>left p. (has_error p \<and> 1 \<le> n) \<or> 8 * remaining p + 1 \<le> n \<longrightarrow>
      (\<exists>x p'. expression_loop v m n left p = Some (x, p') \<and> remaining p' \<le> remaining p \<and>
         (has_error p \<longrightarrow> has_error p'))) \<and>
   (\<forall>p. 8 * remaining p + 6 \<le> n \<longrightarrow>
      (\<exists>x p'. parse_term v m n p = Some (x, p') \<and> remaining p' \<le> remaining p \<and>
         (has_error p' \<or> remaining p' < remaining p))) \<and>
   (\<forall>left p. (has_error p \<and> 1 \<le> n) \<or> 8 * remaining p + 1 \<le> n \<longrightarrow>
      (\<exists>x p'. term_loop v m n left p = Some (x, p') \<and> remaining p' \<le> remaining p \<and>
         (has_error p \<longrightarrow> has_error p'))) \<and>
   (\<forall>p. 8 * remaining p + 5 \<le> n \<longrightarrow>
      (\<exists>x p'. parse_factor v m n p = Some (x, p') \<and> remaining p' \<le> remaining p \<and>
         (has_error p' \<or> remaining p' < remaining p))) \<and>
   (\<forall>left p. (has_error p \<and> 1 \<le> n) \<or> 8 * remaining p + 4 \<le> n \<longrightarrow>
      (\<exists>x p'. factor_loop v m n left p = Some (x, p') \<and> remaining p' \<le> remaining p \<and>
         (has_error p \<longrightarrow> has_error p'))) \<and>
   (\<forall>p. 8 * remaining p + 3 \<le> n \<longrightarrow>
      (\<exists>x p'. parse_power v m n p = Some (x, p') \<and> remaining p' \<le> remaining p \<and>
         (has_error p' \<or> remaining p' < remaining p))) \<and>
   (\<forall>p. 8 * remaining p + 2 \<le> n \<longrightarrow>
      (\<exists>x p'. parse_unary v m n p = Some (x, p') \<and> remaining p' \<le> remaining p \<and>
         (has_error p' \<or> remaining p' < remaining p))) \<and>
   (\<forall>p. 8 * remaining p + 1 \<le> n \<longrightarrow>
      (\<exists>x p'. parse_primary v m n p = Some (x, p') \<and> remaining p' \<le> remaining p \<and>
         (has_error p' \<or> remaining p' < remaining p)))"
proof (induction n)
  case 0
  show ?case by simp
next
  case (Suc n)
  note e = Suc.IH[THEN conjunct1, rule_format]
  note el = Suc.IH[THEN conjunct2, THEN conjunct1, rule_format]
  note t = Suc.IH[THEN conjunct2, THEN conjunct2, THEN conjunct1, rule_format]
  note tl = Suc.IH[THEN conjunct2, THEN conjunct2, THEN conjunct2, THEN conjunct1, rule_format]
  note f = Suc.IH[THEN conjunct2, THEN conjunct2, THEN conjunct2, THEN conjunct2, THEN conjunct1, rule_format]
  note fl = Suc.IH[THEN conjunct2, THEN conjunct2, THEN conjunct2, THEN conjunct2, THEN conjunct2, THEN conjunct1, rule_format]
  note pw = Suc.IH[THEN conjunct2, THEN conjunct2, THEN conjunct2, THEN conjunct2, THEN conjunct2, THEN conjunct2, THEN conjunct1, rule_format]
  note u = Suc.IH[THEN conjunct2, THEN conjunct2, THEN conjunct2, THEN conjunct2, THEN conjunct2, THEN conjunct2, THEN conjunct2, THEN conjunct1, rule_format]
  note pr = Suc.IH[THEN conjunct2, THEN conjunct2, THEN conjunct2, THEN conjunct2, THEN conjunct2, THEN conjunct2, THEN conjunct2, THEN conjunct2, rule_format]
  show ?case
  proof (intro conjI allI impI)
    fix p
    assume a: "8 * remaining p + 7 \<le> Suc n"
    then have "8 * remaining p + 6 \<le> n" by simp
    from t[OF this] obtain left p1 where 1: "parse_term v m n p = Some (left, p1)"
      "remaining p1 \<le> remaining p" "has_error p1 \<or> remaining p1 < remaining p"
      by blast
    have "(has_error p1 \<and> 1 \<le> n) \<or> 8 * remaining p1 + 1 \<le> n"
      using a 1 by simp
    from el[OF this, of left] obtain x p' where 2: "expression_loop v m n left p1 = Some (x, p')"
      "remaining p' \<le> remaining p1" "has_error p1 \<longrightarrow> has_error p'"
      by blast
    show "\<exists>x p'. parse_expression v m (Suc n) p = Some (x, p') \<and> remaining p' \<le> remaining p \<and>
         (has_error p' \<or> remaining p' < remaining p)"
      using 1 2 by (auto simp: parse_simps)
  next
    fix left p
    assume a: "(has_error p \<and> 1 \<le> Suc n) \<or> 8 * remaining p + 1 \<le> Suc n"
    have step: "\<exists>x p'. expression_loop v m n l (snd r) = Some (x, p') \<and>
        remaining p' \<le> remaining p"
      if "\<not> has_error p" "current_type p \<noteq> TOKEN_EOF"
        "parse_term v m n (advance v m p) = Some r" "remaining (snd r) \<le> remaining (advance v m p)"
      for r l
    proof -
      have "remaining (advance v m p) < remaining p"
        using that by (intro remaining_advance)
      with a that have "(has_error (snd r) \<and> 1 \<le> n) \<or> 8 * remaining (snd r) + 1 \<le> n"
        by simp
      from el[OF this, of l] \<open>remaining (advance v m p) < remaining p\<close> that show ?thesis
        by (fastforce simp: parse_simps)
    qed
    show "\<exists>x p'. expression_loop v m (Suc n) left p = Some (x, p') \<and> remaining p' \<le> remaining p \<and>
         (has_error p \<longrightarrow> has_error p')"
    proof (cases "\<not> has_error p \<and> (current_type p = TOKEN_PLUS \<or> current_type p = TOKEN_MINUS)")
      case False
      then show ?thesis by (auto simp: parse_simps)
    next
      case True
      then have ne: "current_type p \<noteq> TOKEN_EOF" by (auto simp: parse_simps)
      then have adv: "remaining (advance v m p) < remaining p"
        by (intro remaining_advance)
      with a True have "8 * remaining (advance v m p) + 6 \<le> n" by simp
      from t[OF this] obtain right p1 where 1: "parse_term v m n (advance v m p) = Some (right, p1)"
        "remaining p1 \<le> remaining (advance v m p)"
        by blast
      from step[of "(right, p1)"] True ne 1 show ?thesis
        by (auto simp: parse_simps)
    qed
  next
    fix p
    assume a: "8 * remaining p + 6 \<le> Suc n"
    then have "8 * remaining p + 5 \<le> n" by simp
    from f[OF this] obtain left p1 where 1: "parse_factor v m n p = Some (left, p1)"
      "remaining p1 \<le> remaining p" "has_error p1 \<or> remaining p1 < remaining p"
      by blast
    have "(has_error p1 \<and> 1 \<le> n) \<or> 8 * remaining p1 + 1 \<le> n"
      using a 1 by simp
    from tl[OF this, of left] obtain x p' where 2: "term_loop v m n left p1 = Some (x, p')"
      "remaining p' \<le> remaining p1" "has_error p1 \<longrightarrow> has_error p'"
      by blast
    show "\<exists>x p'. parse_term v m (Suc n) p = Some (x, p') \<and> remaining p' \<le> remaining p \<and>
         (has_error p' \<or> remaining p' < remaining p)"
      using 1 2 by (auto simp: parse_simps)
  next
    fix left p
    assume a: "(has_error p \<and> 1 \<le> Suc n) \<or> 8 * remaining p + 1 \<le> Suc n"
    have step: "\<exists>x p'. term_loop v m n l (snd r) = Some (x, p') \<and>
        remaining p' \<le> remaining p"
      if "\<not> has_error p" "current_type p \<noteq> TOKEN_EOF"
        "parse_factor v m n (advance v m p) = Some r" "remaining (snd r) \<le> remaining (advance v m p)"
      for r l
    proof -
      have "remaining (advance v m p) < remaining p"
        using that by (intro remaining_advance)
      with a that have "(has_error (snd r) \<and> 1 \<le> n) \<or> 8 * remaining (snd r) + 1 \<le> n"
        by simp
      from tl[OF this, of l] \<open>remaining (advance v m p) < remaining p\<close> that show ?thesis
        by (fastforce simp: parse_simps)
    qed
    show "\<exists>x p'. term_loop v m (Suc n) left p = Some (x, p') \<and> remaining p' \<le> remaining p \<and>
         (has_error p \<longrightarrow> has_error p')"
    proof (cases "\<not> has_error p \<and> (current_type p = TOKEN_MULTIPLY \<or> current_type p = TOKEN_DIVIDE
        \<or> current_type p = TOKEN_MODULO)")
      case False
      then show ?thesis by (auto simp: parse_simps)
    next
      case True
      then have ne: "current_type p \<noteq> TOKEN_EOF" by (auto simp: parse_simps)
      then have adv: "remaining (advance v m p) < remaining p"
        by (intro remaining_advance)
      with a True have "8 * remaining (advance v m p) + 5 \<le> n" by simp
      from f[OF this] obtain right p1 where 1: "parse_factor v m n (advance v m p) = Some (right, p1)"
        "remaining p1 \<le> remaining (advance v m p)"
        by blast
      from step[of "(right, p1)"] True ne 1 adv show ?thesis
        by (auto simp: parse_simps)
    qed
  next
    fix p
    assume a: "8 * remaining p + 5 \<le> Suc n"
    then have "8 * remaining p + 3 \<le> n" by simp
    from pw[OF this] obtain left p1 where 1: "parse_power v m n p = Some (left, p1)"
      "remaining p1 \<le> remaining p" "has_error p1 \<or> remaining p1 < remaining p"
      by blast
    have "(has_error p1 \<and> 1 \<le> n) \<or> 8 * remaining p1 + 4 \<le> n"
      using a 1 by simp
    from fl[OF this, of left] obtain x p' where 2: "factor_loop v m n left p1 = Some (x, p')"
      "remaining p' \<le> remaining p1" "has_error p1 \<longrightarrow> has_error p'"
      by blast
    show "\<exists>x p'. parse_factor v m (Suc n) p = Some (x, p') \<and> remaining p' \<le> remaining p \<and>
         (has_error p' \<or> remaining p' < remaining p)"
      using 1 2 by (auto simp: parse_simps)
  next
    fix left p
    assume a: "(has_error p \<and> 1 \<le> Suc n) \<or> 8 * remaining p + 4 \<le> Suc n"
    show "\<exists>x p'. factor_loop v m (Suc n) left p = Some (x, p') \<and> remaining p' \<le> remaining p \<and>
         (has_error p \<longrightarrow> has_error p')"
    proof (cases "\<not> has_error p \<and> implicit_multiplicand (current_type p)")
      case False
      then show ?thesis by (auto simp: parse_simps)
    next
      case True
      with a have b: "8 * remaining p + 3 \<le> n" by simp
      from pw[OF this] obtain right p1 where 1: "parse_power v m n p = Some (right, p1)"
        "remaining p1 \<le> remaining p" "has_error p1 \<or> remaining p1 < remaining p"
        by blast
      have "(has_error p1 \<and> 1 \<le> n) \<or> 8 * remaining p1 + 4 \<le> n"
        using b 1 by (auto simp: parse_simps)
      from fl[OF this, of "left * right"] obtain x p' where
        2: "factor_loop v m n (left * right) p1 = Some (x, p')" "remaining p' \<le> remaining p1"
        by blast
      from True 1 2 show ?thesis
        by (auto simp: parse_simps)
    qed
  next
    fix p
    assume a: "8 * remaining p + 3 \<le> Suc n"
    then have "8 * remaining p + 2 \<le> n" by simp
    from u[OF this] obtain left p1 where 1: "parse_unary v m n p = Some (left, p1)"
      "remaining p1 \<le> remaining p" "has_error p1 \<or> remaining p1 < remaining p"
      by blast
    show "\<exists>x p'. parse_power v m (Suc n) p = Some (x, p') \<and> remaining p' \<le> remaining p \<and>
         (has_error p' \<or> remaining p' < remaining p)"
    proof (cases "\<not> has_error p1 \<and> current_type p1 = TOKEN_POWER")
      case False
      with 1 show ?thesis by (auto simp: parse_simps)
    next
      case True
      then have "remaining (advance v m p1) < remaining p1"
        by (intro remaining_advance) simp
      with a 1 True have adv: "remaining (advance v m p1) < remaining p"
        "8 * remaining (advance v m p1) + 3 \<le> n"
        by (auto simp: parse_simps)
      from pw[OF adv(2)] obtain right p2 where
        2: "parse_power v m n (advance v m p1) = Some (right, p2)"
        "remaining p2 \<le> remaining (advance v m p1)"
        by blast
      from True 1 2 adv show ?thesis
        by (auto simp: parse_simps)
    qed
  next
    fix p
    assume a: "8 * remaining p + 2 \<le> Suc n"
    have adv: "remaining (advance v m p) < remaining p" if "current_type p \<noteq> TOKEN_EOF"
      using that by (rule remaining_advance)
    have un: "\<exists>x p'. parse_unary v m n (advance v m p) = Some (x, p') \<and>
        remaining p' < remaining p" if "current_type p \<noteq> TOKEN_EOF"
    proof -
      from a adv[OF that] have "8 * remaining (advance v m p) + 2 \<le> n" by simp
      from u[OF this] adv[OF that] show ?thesis by (fastforce simp: parse_simps)
    qed
    have prim: "\<exists>x p'. parse_primary v m n (advance v m p) = Some (x, p') \<and>
        remaining p' < remaining p" if "current_type p \<noteq> TOKEN_EOF"
    proof -
      from a adv[OF that] have "8 * remaining (advance v m p) + 1 \<le> n" by simp
      from pr[OF this] adv[OF that] show ?thesis by (fastforce simp: parse_simps)
    qed
    have "8 * remaining p + 1 \<le> n" using a by simp
    note prim0 = pr[OF this]
    consider (minus) "current_type p = TOKEN_MINUS" | (plus) "current_type p = TOKEN_PLUS"
      | (fn) "current_type p \<in> {TOKEN_SIN, TOKEN_COS, TOKEN_TAN, TOKEN_SQRT, TOKEN_LOG,
          TOKEN_EXP, TOKEN_ABS}"
      | (other) "current_type p \<notin> {TOKEN_MINUS, TOKEN_PLUS, TOKEN_SIN, TOKEN_COS, TOKEN_TAN,
          TOKEN_SQRT, TOKEN_LOG, TOKEN_EXP, TOKEN_ABS}"
      by blast
    then show "\<exists>x p'. parse_unary v m (Suc n) p = Some (x, p') \<and> remaining p' \<le> remaining p \<and>
         (has_error p' \<or> remaining p' < remaining p)"
    proof cases
      case minus
      with un show ?thesis by (fastforce simp: parse_simps)
    next
      case plus
      with un show ?thesis by (fastforce simp: parse_simps)
    next
      case fn
      then have "current_type p \<noteq> TOKEN_EOF" by (auto simp: parse_simps)
      from prim[OF this] obtain x p1 where
        1: "parse_primary v m n (advance v m p) = Some (x, p1)" "remaining p1 < remaining p"
        by blast
      from fn 1 show ?thesis
        by (auto simp: parse_simps)
    next
      case other
      with prim0 show ?thesis by (auto simp: parse_simps)
    qed
  next
    fix p
    assume a: "8 * remaining p + 1 \<le> Suc n"
    have adv: "remaining (advance v m p) < remaining p" if "current_type p \<noteq> TOKEN_EOF"
      using that by (rule remaining_advance)
    show "\<exists>x p'. parse_primary v m (Suc n) p = Some (x, p') \<and> remaining p' \<le> remaining p \<and>
         (has_error p' \<or> remaining p' < remaining p)"
    proof (cases "current_type p = TOKEN_LPAREN")
      case True
      then have ne: "current_type p \<noteq> TOKEN_EOF" by simp
      from a adv[OF ne] have "8 * remaining (advance v m p) + 7 \<le> n" by simp
      from e[OF this] obtain x p1 where
        1: "parse_expression v m n (advance v m p) = Some (x, p1)"
        "remaining p1 \<le> remaining (advance v m p)"
        by blast
      have 2: "remaining (advance v m p1) < remaining p1" if "current_type p1 = TOKEN_RPAREN"
        using that by (intro remaining_advance) simp
      from True 1 2 adv[OF ne] show ?thesis
        by (auto simp: parse_simps Let_def current_type_def)
    next
      case False
      with adv show ?thesis
        by (auto simp: parse_simps Let_def current_type_def less_imp_le)
    qed
  qed
qed


lemma remaining_parser_init: "remaining (parser_init v m (lexer_init s)) \<le> length s + 1"
proof -
  obtain t l' where tl: "lexer_next_token v m (lexer_init s) = (t, l')"
    by (cases "lexer_next_token v m (lexer_init s)")
  from lexer_next_token_position[OF tl] have "input l' = s"
    by (simp add: lexer_init_def)
  then show ?thesis
    by (auto simp: remaining_def parser_init_def lexer_advance_def tl)
qed

lemma parse_expression_terminates:
  "\<exists>r. parse_expression v m (evaluate_fuel s) (parser_init v m (lexer_init s)) = Some r"
proof -
  have "8 * remaining (parser_init v m (lexer_init s)) + 7 \<le> evaluate_fuel s"
    using remaining_parser_init[of v m s] by (simp add: evaluate_fuel_def)
  with parse_total[of "evaluate_fuel s" v m] show ?thesis
    by blast
qed

lemma evaluate_terminates: "\<exists>r. evaluate v m s = Some r"
  using parse_expression_terminates[of v m s] by (auto simp: evaluate_def)

lemma evaluate_any_fuel:
  assumes "parse_expression v m n (parser_init v m (lexer_init s)) = Some r"
  shows "evaluate v m s = Some (finish v r)"
proof -
  obtain r' where r': "parse_expression v m (evaluate_fuel s) (parser_init v m (lexer_init s)) = Some r'"
    using parse_expression_terminates by blast
  have "parse_expression v m (max n (evaluate_fuel s)) (parser_init v m (lexer_init s)) = Some r"
    using assms by (rule parse_fuel_mono) simp
  moreover have "parse_expression v m (max n (evaluate_fuel s)) (parser_init v m (lexer_init s)) = Some r'"
    using r' by (rule parse_fuel_mono) simp
  ultimately have "r' = r" by simp
  with r' show ?thesis
    by (simp add: evaluate_def)
qed

subsection \<open>The end of \<open>evaluate\<close>, and input without tokens\<close>

lemma take_msg [simp]:
  "take 255 (msg_extra_tokens v) = msg_extra_tokens v"
  "take 255 (msg_unexpected_end v) = msg_unexpected_end v"
  "take 255 (msg_division_by_zero v) = msg_division_by_zero v"
  "take 255 (msg_modulo_by_zero v) = msg_modulo_by_zero v"
  "take 255 (msg_sqrt_negative v) = msg_sqrt_negative v"
  "take 255 (msg_log_non_positive v) = msg_log_non_positive v"
  "take 255 (msg_missing_paren v) = msg_missing_paren v"
  by (simp_all add: msg_defs)

lemma finish_error: "has_error p \<Longrightarrow> finish v (x, p) = Inl (error p)"
  by (simp add: finish_def)

lemma finish_extra:
  "\<not> has_error p \<Longrightarrow> current_type p \<noteq> TOKEN_EOF \<Longrightarrow> finish v (x, p) = Inl (msg_extra_tokens v)"
  by (simp add: finish_def)


lemma skip_whitespace_loop_all:
  "list_all isspace s \<Longrightarrow> i \<le> length s \<Longrightarrow> skip_whitespace_loop s i = length s"
proof (induction s i rule: skip_whitespace_loop.induct)
  case (1 s i)
  show ?case
  proof (cases "i < length s")
    case True
    with 1(2) have sp: "isspace (s ! i)"
      by (simp add: list_all_length)
    then have "s ! i \<noteq> CHR 0x00"
      by (auto simp: isspace_def)
    with True sp 1 show ?thesis
      by (subst skip_whitespace_loop.simps) (simp add: char_at_def)
  next
    case False
    with 1(3) show ?thesis
      by (subst skip_whitespace_loop.simps) (simp add: char_at_def)
  qed
qed

lemma parser_init_whitespace:
  assumes "list_all isspace s"
  shows "current_type (parser_init v m (lexer_init s)) = TOKEN_EOF"
    and "\<not> has_error (parser_init v m (lexer_init s))"
  using skip_whitespace_loop_all[OF assms, of 0]
  by (simp_all add: parser_init_def lexer_init_def lexer_advance_def lexer_next_token_def
      lexer_skip_whitespace_def current_type_def char_at_def)

lemma parse_expression_at_end:
  assumes "current_type p = TOKEN_EOF" and "\<not> has_error p"
  shows "parse_expression v m (Suc (Suc (Suc (Suc (Suc (Suc n)))))) p =
         Some (0, parser_error p (msg_unexpected_end v))"
  using assms by (simp add: parse_simps Let_def current_type_def)

subsection \<open>The Cocoa parser follows the others on their successful runs\<close>

lemma lexer_read_identifier_tui_mac: "lexer_read_identifier TUI m l = lexer_read_identifier MAC m l"
  by (simp only: lexer_read_identifier_def msg_unknown_identifier_def variant.distinct if_False)

lemma msg_unexpected_character_tui_mac: "msg_unexpected_character TUI = msg_unexpected_character MAC"
  by (simp add: msg_unexpected_character_def)

lemma lexer_next_token_tui_mac: "lexer_next_token TUI m l = lexer_next_token MAC m l"
  by (simp only: lexer_next_token_def lexer_read_identifier_tui_mac
      msg_unexpected_character_tui_mac)

lemma advance_tui_mac: "advance TUI m p = advance MAC m p"
  by (simp add: advance_def lexer_advance_def lexer_next_token_tui_mac)

lemma parser_init_tui_mac: "parser_init TUI m l = parser_init MAC m l"
  by (simp add: parser_init_def lexer_advance_def lexer_next_token_tui_mac)

lemma msg_tui_mac:
  "msg_division_by_zero TUI = msg_division_by_zero MAC"
  "msg_modulo_by_zero TUI = msg_modulo_by_zero MAC"
  "msg_sqrt_negative TUI = msg_sqrt_negative MAC"
  "msg_log_non_positive TUI = msg_log_non_positive MAC"
  "msg_missing_paren TUI = msg_missing_paren MAC"
  "msg_unexpected_end TUI = msg_unexpected_end MAC"
  "msg_unexpected_token TUI = msg_unexpected_token MAC"
  "msg_extra_tokens TUI = msg_extra_tokens MAC"
  by (simp_all add: msg_defs)

lemma expression_loop_entry:
  assumes "expression_loop v m n left p = Some (x, p')" and "\<not> has_error p'"
    and "\<not> implicit_multiplicand (current_type p')"
  shows "\<not> has_error p \<and> \<not> implicit_multiplicand (current_type p)"
  using assms
  by (cases n) (auto simp: expression_loop.simps implicit_multiplicand_def split: if_splits)

lemma term_loop_entry:
  assumes "term_loop v m n left p = Some (x, p')" and "\<not> has_error p'"
    and "\<not> implicit_multiplicand (current_type p')"
  shows "\<not> has_error p \<and> \<not> implicit_multiplicand (current_type p)"
  using assms
  by (cases n) (auto simp: term_loop.simps implicit_multiplicand_def split: if_splits)

lemma sim_e:
  assumes t: "\<And>p x p'. parse_term TUI m n p = Some (x, p') \<Longrightarrow> \<not> has_error p' \<Longrightarrow>
      \<not> implicit_multiplicand (current_type p') \<Longrightarrow> parse_term MAC m n p = Some (x, p')"
    and el: "\<And>left p x p'. expression_loop TUI m n left p = Some (x, p') \<Longrightarrow> \<not> has_error p' \<Longrightarrow>
      \<not> implicit_multiplicand (current_type p') \<Longrightarrow> expression_loop MAC m n left p = Some (x, p')"
    and a: "parse_expression TUI m (Suc n) p = Some (x, p')" "\<not> has_error p'"
      "\<not> implicit_multiplicand (current_type p')"
  shows "parse_expression MAC m (Suc n) p = Some (x, p')"
proof -
  from a(1) obtain l p1 where 1: "parse_term TUI m n p = Some (l, p1)"
    and 2: "expression_loop TUI m n l p1 = Some (x, p')"
    by (auto simp: parse_expression.simps split: option.splits)
  from expression_loop_entry[OF 2 a(2,3)] have "parse_term MAC m n p = Some (l, p1)"
    by (intro t[OF 1]) simp_all
  moreover have "expression_loop MAC m n l p1 = Some (x, p')"
    using 2 a(2,3) by (rule el)
  ultimately show ?thesis
    by (simp add: parse_expression.simps)
qed

lemma sim_el:
  assumes t: "\<And>p x p'. parse_term TUI m n p = Some (x, p') \<Longrightarrow> \<not> has_error p' \<Longrightarrow>
      \<not> implicit_multiplicand (current_type p') \<Longrightarrow> parse_term MAC m n p = Some (x, p')"
    and el: "\<And>left p x p'. expression_loop TUI m n left p = Some (x, p') \<Longrightarrow> \<not> has_error p' \<Longrightarrow>
      \<not> implicit_multiplicand (current_type p') \<Longrightarrow> expression_loop MAC m n left p = Some (x, p')"
    and a: "expression_loop TUI m (Suc n) left p = Some (x, p')" "\<not> has_error p'"
      "\<not> implicit_multiplicand (current_type p')"
  shows "expression_loop MAC m (Suc n) left p = Some (x, p')"
proof (cases "\<not> has_error p \<and> (current_type p = TOKEN_PLUS \<or> current_type p = TOKEN_MINUS)")
  case False
  with a(1) show ?thesis
    by (auto simp: expression_loop.simps)
next
  case True
  with a(1) obtain r p1 where 1: "parse_term TUI m n (advance TUI m p) = Some (r, p1)"
    and 2: "expression_loop TUI m n (if current_type p = TOKEN_PLUS then left + r else left - r) p1 =
      Some (x, p')"
    by (auto simp: expression_loop.simps split: option.splits)
  from expression_loop_entry[OF 2 a(2,3)] have "parse_term MAC m n (advance TUI m p) = Some (r, p1)"
    by (intro t[OF 1]) simp_all
  moreover have "expression_loop MAC m n (if current_type p = TOKEN_PLUS then left + r else left - r) p1 =
      Some (x, p')"
    using 2 a(2,3) by (rule el)
  ultimately show ?thesis
    using True by (auto simp: expression_loop.simps advance_tui_mac)
qed

lemma sim_t:
  assumes f: "\<And>p x p'. parse_factor TUI m n p = Some (x, p') \<Longrightarrow> \<not> has_error p' \<Longrightarrow>
      \<not> implicit_multiplicand (current_type p') \<Longrightarrow> parse_factor MAC m n p = Some (x, p')"
    and tl: "\<And>left p x p'. term_loop TUI m n left p = Some (x, p') \<Longrightarrow> \<not> has_error p' \<Longrightarrow>
      \<not> implicit_multiplicand (current_type p') \<Longrightarrow> term_loop MAC m n left p = Some (x, p')"
    and a: "parse_term TUI m (Suc n) p = Some (x, p')" "\<not> has_error p'"
      "\<not> implicit_multiplicand (current_type p')"
  shows "parse_term MAC m (Suc n) p = Some (x, p')"
proof -
  from a(1) obtain l p1 where 1: "parse_factor TUI m n p = Some (l, p1)"
    and 2: "term_loop TUI m n l p1 = Some (x, p')"
    by (auto simp: parse_term.simps split: option.splits)
  from term_loop_entry[OF 2 a(2,3)] have "parse_factor MAC m n p = Some (l, p1)"
    by (intro f[OF 1]) simp_all
  moreover have "term_loop MAC m n l p1 = Some (x, p')"
    using 2 a(2,3) by (rule tl)
  ultimately show ?thesis
    by (simp add: parse_term.simps)
qed

lemma sim_tl:
  assumes f: "\<And>p x p'. parse_factor TUI m n p = Some (x, p') \<Longrightarrow> \<not> has_error p' \<Longrightarrow>
      \<not> implicit_multiplicand (current_type p') \<Longrightarrow> parse_factor MAC m n p = Some (x, p')"
    and tl: "\<And>left p x p'. term_loop TUI m n left p = Some (x, p') \<Longrightarrow> \<not> has_error p' \<Longrightarrow>
      \<not> implicit_multiplicand (current_type p') \<Longrightarrow> term_loop MAC m n left p = Some (x, p')"
    and a: "term_loop TUI m (Suc n) left p = Some (x, p')" "\<not> has_error p'"
      "\<not> implicit_multiplicand (current_type p')"
  shows "term_loop MAC m (Suc n) left p = Some (x, p')"
proof (cases "\<not> has_error p \<and> (current_type p = TOKEN_MULTIPLY \<or> current_type p = TOKEN_DIVIDE
    \<or> current_type p = TOKEN_MODULO)")
  case False
  with a(1) show ?thesis
    by (auto simp: term_loop.simps)
next
  case True
  with a(1,2) obtain r p1 where 1: "parse_factor TUI m n (advance TUI m p) = Some (r, p1)"
    and 2: "term_loop TUI m n (if current_type p = TOKEN_MULTIPLY then left * r
        else if current_type p = TOKEN_DIVIDE then left / r else c_fmod m left r) p1 = Some (x, p')"
    and 3: "current_type p = TOKEN_MULTIPLY \<or> r \<noteq> 0"
    by (auto simp: term_loop.simps split: option.splits if_splits)
  from term_loop_entry[OF 2 a(2,3)] have "parse_factor MAC m n (advance TUI m p) = Some (r, p1)"
    by (intro f[OF 1]) simp_all
  moreover have "term_loop MAC m n (if current_type p = TOKEN_MULTIPLY then left * r
        else if current_type p = TOKEN_DIVIDE then left / r else c_fmod m left r) p1 = Some (x, p')"
    using 2 a(2,3) by (rule tl)
  ultimately show ?thesis
    using True 3 by (auto simp: term_loop.simps advance_tui_mac)
qed

lemma sim_f:
  assumes pw: "\<And>p x p'. parse_power TUI m n p = Some (x, p') \<Longrightarrow> \<not> has_error p' \<Longrightarrow>
      \<not> implicit_multiplicand (current_type p') \<Longrightarrow> parse_power MAC m n p = Some (x, p')"
    and a: "parse_factor TUI m (Suc n) p = Some (x, p')" "\<not> has_error p'"
      "\<not> implicit_multiplicand (current_type p')"
  shows "parse_factor MAC m (Suc n) p = Some (x, p')"
proof -
  from a(1) have 1: "parse_power TUI m n p = Some (x, p')"
    by (auto simp: parse_factor.simps implicit_multiplication_def split: option.splits)
  then obtain k where n: "n = Suc k"
    by (cases n) (auto simp: parse_power.simps)
  from pw[OF 1 a(2,3)] a(2,3) show ?thesis
    by (simp add: parse_factor.simps factor_loop.simps n)
qed

lemma sim_pw:
  assumes u: "\<And>p x p'. parse_unary TUI m n p = Some (x, p') \<Longrightarrow> \<not> has_error p' \<Longrightarrow>
      \<not> implicit_multiplicand (current_type p') \<Longrightarrow> parse_unary MAC m n p = Some (x, p')"
    and pw: "\<And>p x p'. parse_power TUI m n p = Some (x, p') \<Longrightarrow> \<not> has_error p' \<Longrightarrow>
      \<not> implicit_multiplicand (current_type p') \<Longrightarrow> parse_power MAC m n p = Some (x, p')"
    and a: "parse_power TUI m (Suc n) p = Some (x, p')" "\<not> has_error p'"
      "\<not> implicit_multiplicand (current_type p')"
  shows "parse_power MAC m (Suc n) p = Some (x, p')"
proof -
  from a(1) obtain l p1 where 1: "parse_unary TUI m n p = Some (l, p1)"
    by (auto simp: parse_power.simps split: option.splits)
  show ?thesis
  proof (cases "\<not> has_error p1 \<and> current_type p1 = TOKEN_POWER")
    case True
    with a(1) 1 obtain r where 2: "parse_power TUI m n (advance TUI m p1) = Some (r, p')"
      and x: "x = c_pow m l r"
      by (auto simp: parse_power.simps split: option.splits)
    from True have "parse_unary MAC m n p = Some (l, p1)"
      by (intro u[OF 1]) (simp_all add: implicit_multiplicand_def)
    moreover have "parse_power MAC m n (advance TUI m p1) = Some (r, p')"
      using 2 a(2,3) by (rule pw)
    ultimately show ?thesis
      using True x by (simp add: parse_power.simps advance_tui_mac)
  next
    case False
    with a(1) 1 have eq: "x = l" "p' = p1"
      by (auto simp: parse_power.simps)
    with a(2,3) have "parse_unary MAC m n p = Some (l, p1)"
      by (intro u[OF 1]) simp_all
    with False eq show ?thesis
      by (auto simp: parse_power.simps)
  qed
qed

lemma sim_u:
  assumes u: "\<And>p x p'. parse_unary TUI m n p = Some (x, p') \<Longrightarrow> \<not> has_error p' \<Longrightarrow>
      \<not> implicit_multiplicand (current_type p') \<Longrightarrow> parse_unary MAC m n p = Some (x, p')"
    and pr: "\<And>p x p'. parse_primary TUI m n p = Some (x, p') \<Longrightarrow> \<not> has_error p' \<Longrightarrow>
      \<not> implicit_multiplicand (current_type p') \<Longrightarrow> parse_primary MAC m n p = Some (x, p')"
    and a: "parse_unary TUI m (Suc n) p = Some (x, p')" "\<not> has_error p'"
      "\<not> implicit_multiplicand (current_type p')"
  shows "parse_unary MAC m (Suc n) p = Some (x, p')"
proof -
  consider (minus) "current_type p = TOKEN_MINUS" | (plus) "current_type p = TOKEN_PLUS"
    | (fn) "current_type p \<in> {TOKEN_SIN, TOKEN_COS, TOKEN_TAN, TOKEN_SQRT, TOKEN_LOG,
        TOKEN_EXP, TOKEN_ABS}"
    | (other) "current_type p \<notin> {TOKEN_MINUS, TOKEN_PLUS, TOKEN_SIN, TOKEN_COS, TOKEN_TAN,
        TOKEN_SQRT, TOKEN_LOG, TOKEN_EXP, TOKEN_ABS}"
    by blast
  then show ?thesis
  proof cases
    case minus
    with a(1) obtain y where 1: "parse_unary TUI m n (advance TUI m p) = Some (y, p')"
      and x: "x = - y"
      by (auto simp: parse_unary.simps split: option.splits)
    from u[OF 1 a(2,3)] minus x show ?thesis
      by (simp add: parse_unary.simps advance_tui_mac)
  next
    case plus
    with a(1) have 1: "parse_unary TUI m n (advance TUI m p) = Some (x, p')"
      by (auto simp: parse_unary.simps split: option.splits)
    from u[OF 1 a(2,3)] plus show ?thesis
      by (simp add: parse_unary.simps advance_tui_mac)
  next
    case fn
    with a(1,2) obtain y where 1: "parse_primary TUI m n (advance TUI m p) = Some (y, p')"
      by (auto simp: parse_unary.simps split: option.splits if_splits)
    from pr[OF 1 a(2,3)] have 2: "parse_primary MAC m n (advance MAC m p) = Some (y, p')"
      by (simp add: advance_tui_mac)
    from fn a(1,2) 1 2 show ?thesis
      by (auto simp: parse_unary.simps advance_tui_mac msg_tui_mac split: if_splits)
  next
    case other
    with a(1) have 1: "parse_primary TUI m n p = Some (x, p')"
      by (auto simp: parse_unary.simps)
    from pr[OF 1 a(2,3)] other show ?thesis
      by (auto simp: parse_unary.simps)
  qed
qed

lemma sim_pr:
  assumes e: "\<And>p x p'. parse_expression TUI m n p = Some (x, p') \<Longrightarrow> \<not> has_error p' \<Longrightarrow>
      \<not> implicit_multiplicand (current_type p') \<Longrightarrow> parse_expression MAC m n p = Some (x, p')"
    and a: "parse_primary TUI m (Suc n) p = Some (x, p')" "\<not> has_error p'"
      "\<not> implicit_multiplicand (current_type p')"
  shows "parse_primary MAC m (Suc n) p = Some (x, p')"
proof (cases "current_type p = TOKEN_LPAREN")
  case True
  with a(1,2) obtain p1 where 1: "parse_expression TUI m n (advance TUI m p) = Some (x, p1)"
    and 2: "current_type p1 = TOKEN_RPAREN" "p' = advance TUI m p1"
    by (auto simp: parse_primary.simps Let_def current_type_def split: option.splits if_splits)
  from 2 a(2) have "parse_expression MAC m n (advance TUI m p) = Some (x, p1)"
    by (intro e[OF 1]) (simp_all add: implicit_multiplicand_def)
  with True 2 show ?thesis
    by (simp add: parse_primary.simps Let_def current_type_def advance_tui_mac)
next
  case False
  with a(1,2) show ?thesis
    by (auto simp: parse_primary.simps Let_def current_type_def advance_tui_mac
        split: if_splits)
qed

lemma tui_mac_simulation:
  "(\<forall>p x p'. parse_expression TUI m n p = Some (x, p') \<longrightarrow> \<not> has_error p' \<longrightarrow> \<not> implicit_multiplicand (current_type p') \<longrightarrow> parse_expression MAC m n p = Some (x, p')) \<and>
   (\<forall>left p x p'. expression_loop TUI m n left p = Some (x, p') \<longrightarrow> \<not> has_error p' \<longrightarrow> \<not> implicit_multiplicand (current_type p') \<longrightarrow> expression_loop MAC m n left p = Some (x, p')) \<and>
   (\<forall>p x p'. parse_term TUI m n p = Some (x, p') \<longrightarrow> \<not> has_error p' \<longrightarrow> \<not> implicit_multiplicand (current_type p') \<longrightarrow> parse_term MAC m n p = Some (x, p')) \<and>
   (\<forall>left p x p'. term_loop TUI m n left p = Some (x, p') \<longrightarrow> \<not> has_error p' \<longrightarrow> \<not> implicit_multiplicand (current_type p') \<longrightarrow> term_loop MAC m n left p = Some (x, p')) \<and>
   (\<forall>p x p'. parse_factor TUI m n p = Some (x, p') \<longrightarrow> \<not> has_error p' \<longrightarrow> \<not> implicit_multiplicand (current_type p') \<longrightarrow> parse_factor MAC m n p = Some (x, p')) \<and>
   (\<forall>p x p'. parse_power TUI m n p = Some (x, p') \<longrightarrow> \<not> has_error p' \<longrightarrow> \<not> implicit_multiplicand (current_type p') \<longrightarrow> parse_power MAC m n p = Some (x, p')) \<and>
   (\<forall>p x p'. parse_unary TUI m n p = Some (x, p') \<longrightarrow> \<not> has_error p' \<longrightarrow> \<not> implicit_multiplicand (current_type p') \<longrightarrow> parse_unary MAC m n p = Some (x, p')) \<and>
   (\<forall>p x p'. parse_primary TUI m n p = Some (x, p') \<longrightarrow> \<not> has_error p' \<longrightarrow> \<not> implicit_multiplicand (current_type p') \<longrightarrow> parse_primary MAC m n p = Some (x, p'))"
proof (induction n)
  case 0
  show ?case by (simp add: parse_simps)
next
  case (Suc n)
  note e = Suc.IH[THEN conjunct1, rule_format]
  note el = Suc.IH[THEN conjunct2, THEN conjunct1, rule_format]
  note t = Suc.IH[THEN conjunct2, THEN conjunct2, THEN conjunct1, rule_format]
  note tl = Suc.IH[THEN conjunct2, THEN conjunct2, THEN conjunct2, THEN conjunct1, rule_format]
  note f = Suc.IH[THEN conjunct2, THEN conjunct2, THEN conjunct2, THEN conjunct2, THEN conjunct1, rule_format]
  note pw = Suc.IH[THEN conjunct2, THEN conjunct2, THEN conjunct2, THEN conjunct2, THEN conjunct2, THEN conjunct1, rule_format]
  note u = Suc.IH[THEN conjunct2, THEN conjunct2, THEN conjunct2, THEN conjunct2, THEN conjunct2, THEN conjunct2, THEN conjunct1, rule_format]
  note pr = Suc.IH[THEN conjunct2, THEN conjunct2, THEN conjunct2, THEN conjunct2, THEN conjunct2, THEN conjunct2, THEN conjunct2, rule_format]
  show ?case
  proof (intro conjI allI impI)
    show "parse_expression MAC m (Suc n) p = Some (x, p')"
      if "parse_expression TUI m (Suc n) p = Some (x, p')" "\<not> has_error p'" "\<not> implicit_multiplicand (current_type p')"
      for p x p'
      using t el that by (rule sim_e)
    show "expression_loop MAC m (Suc n) left p = Some (x, p')"
      if "expression_loop TUI m (Suc n) left p = Some (x, p')" "\<not> has_error p'" "\<not> implicit_multiplicand (current_type p')"
      for left p x p'
      using t el that by (rule sim_el)
    show "parse_term MAC m (Suc n) p = Some (x, p')"
      if "parse_term TUI m (Suc n) p = Some (x, p')" "\<not> has_error p'" "\<not> implicit_multiplicand (current_type p')"
      for p x p'
      using f tl that by (rule sim_t)
    show "term_loop MAC m (Suc n) left p = Some (x, p')"
      if "term_loop TUI m (Suc n) left p = Some (x, p')" "\<not> has_error p'" "\<not> implicit_multiplicand (current_type p')"
      for left p x p'
      using f tl that by (rule sim_tl)
    show "parse_factor MAC m (Suc n) p = Some (x, p')"
      if "parse_factor TUI m (Suc n) p = Some (x, p')" "\<not> has_error p'" "\<not> implicit_multiplicand (current_type p')"
      for p x p'
      using pw that by (rule sim_f)
    show "parse_power MAC m (Suc n) p = Some (x, p')"
      if "parse_power TUI m (Suc n) p = Some (x, p')" "\<not> has_error p'" "\<not> implicit_multiplicand (current_type p')"
      for p x p'
      using u pw that by (rule sim_pw)
    show "parse_unary MAC m (Suc n) p = Some (x, p')"
      if "parse_unary TUI m (Suc n) p = Some (x, p')" "\<not> has_error p'" "\<not> implicit_multiplicand (current_type p')"
      for p x p'
      using u pr that by (rule sim_u)
    show "parse_primary MAC m (Suc n) p = Some (x, p')"
      if "parse_primary TUI m (Suc n) p = Some (x, p')" "\<not> has_error p'" "\<not> implicit_multiplicand (current_type p')"
      for p x p'
      using e that by (rule sim_pr)
  qed
qed

lemma finish_Inr: "finish v (y, p) = Inr x \<longleftrightarrow> \<not> has_error p \<and> current_type p = TOKEN_EOF \<and> y = x"
  by (auto simp: finish_def)

subsection \<open>The C rules against the reference evaluator\<close>























subsection \<open>The number token\<close>

text \<open>
  What the loop of \<^verbatim>\<open>lexer_read_number\<close> covers: digits with at most one dot, as far as they
  go; and, the other way round, every text of that form is covered as a whole.
\<close>

lemma isdigit_dot [simp]: "\<not> isdigit (CHR ''.'')"
  by (simp add: isdigit_def)

lemma segment_Cons:
  assumes "i < k" and "k \<le> length s"
  shows "take (k - i) (drop i s) = s ! i # take (k - Suc i) (drop (Suc i) s)"
proof -
  from assms have "drop i s = s ! i # drop (Suc i) s"
    by (simp add: Cons_nth_drop_Suc)
  moreover from assms obtain d where "k - i = Suc d" "k - Suc i = d"
    by (cases "k - i") auto
  ultimately show ?thesis
    by simp
qed

lemma read_number_loop_step:
  assumes "char_at s i \<noteq> CHR 0x00" and "isdigit (char_at s i) \<or> (char_at s i = CHR ''.'' \<and> \<not> d)"
  defines "d' \<equiv> (if isdigit (char_at s i) then d else True)"
  shows "read_number_loop s i d = read_number_loop s (i + 1) d'"
    and "take (read_number_loop s i d - i) (drop i s) =
         char_at s i # take (read_number_loop s (i + 1) d' - (i + 1)) (drop (i + 1) s)"
proof -
  from assms(1) have il: "i < length s" and c: "s ! i = char_at s i"
    by (auto simp: char_at_def split: if_splits)
  show k: "read_number_loop s i d = read_number_loop s (i + 1) d'"
    using assms(1,2) by (subst read_number_loop.simps) (auto simp: d'_def)
  have ik: "i < read_number_loop s (i + 1) d'" "read_number_loop s (i + 1) d' \<le> length s"
    using read_number_loop_ge[of "i + 1" s d'] read_number_loop_le[of "i + 1" s d'] il
    by simp_all
  show "take (read_number_loop s i d - i) (drop i s) =
      char_at s i # take (read_number_loop s (i + 1) d' - (i + 1)) (drop (i + 1) s)"
    using segment_Cons[OF ik] by (simp add: k c)
qed

lemma read_number_loop_stop:
  assumes "\<not> (char_at s i \<noteq> CHR 0x00 \<and> (isdigit (char_at s i) \<or> (char_at s i = CHR ''.'' \<and> \<not> d)))"
  shows "read_number_loop s i d = i"
  using assms by (subst read_number_loop.simps) auto

lemma read_number_loop_digits:
  assumes "i \<le> length s" and "d"
  shows "list_all isdigit (take (read_number_loop s i d - i) (drop i s))"
  using assms
proof (induction s i d rule: read_number_loop.induct)
  case (1 s i has_dot)
  show ?case
  proof (cases "char_at s i \<noteq> CHR 0x00 \<and> isdigit (char_at s i)")
    case False
    with 1(4) have "read_number_loop s i has_dot = i"
      by (intro read_number_loop_stop) auto
    then show ?thesis
      by simp
  next
    case True
    then have "i < length s"
      by (auto dest: char_at_nonzero)
    with True 1(1,4) have "list_all isdigit
        (take (read_number_loop s (i + 1) has_dot - (i + 1)) (drop (i + 1) s))"
      by simp
    with True show ?thesis
      by (simp add: read_number_loop_step(2))
  qed
qed

lemma read_number_loop_pattern:
  assumes "i \<le> length s" and "\<not> d"
  shows "dropWhile isdigit (take (read_number_loop s i d - i) (drop i s)) = [] \<or>
         (hd (dropWhile isdigit (take (read_number_loop s i d - i) (drop i s))) = CHR ''.'' \<and>
          list_all isdigit (tl (dropWhile isdigit (take (read_number_loop s i d - i) (drop i s)))))"
  using assms
proof (induction s i d rule: read_number_loop.induct)
  case (1 s i has_dot)
  let ?c = "char_at s i"
  show ?case
  proof (cases "?c \<noteq> CHR 0x00 \<and> (isdigit ?c \<or> ?c = CHR ''.'')")
    case False
    then have "read_number_loop s i has_dot = i"
      by (intro read_number_loop_stop) auto
    then show ?thesis
      by simp
  next
    case True
    then have il: "i < length s"
      by (auto dest: char_at_nonzero)
    show ?thesis
    proof (cases "isdigit ?c")
      case d: True
      with True il 1(1,4) have "dropWhile isdigit
            (take (read_number_loop s (i + 1) has_dot - (i + 1)) (drop (i + 1) s)) = [] \<or>
          (hd (dropWhile isdigit
             (take (read_number_loop s (i + 1) has_dot - (i + 1)) (drop (i + 1) s))) = CHR ''.'' \<and>
           list_all isdigit (tl (dropWhile isdigit
             (take (read_number_loop s (i + 1) has_dot - (i + 1)) (drop (i + 1) s)))))"
        by simp
      with True d show ?thesis
        by (simp add: read_number_loop_step(2))
    next
      case nd: False
      with True have dot: "?c = CHR ''.''"
        by auto
      have "list_all isdigit (take (read_number_loop s (i + 1) True - (i + 1)) (drop (i + 1) s))"
        using il by (intro read_number_loop_digits) simp_all
      with True nd dot 1(4) show ?thesis
        by (simp add: read_number_loop_step(2))
    qed
  qed
qed

lemma read_number_loop_maximal:
  assumes "i \<le> length s"
  shows "\<not> isdigit (char_at s (read_number_loop s i d)) \<and>
         (char_at s (read_number_loop s i d) = CHR ''.'' \<longrightarrow>
            d \<or> CHR ''.'' \<in> set (take (read_number_loop s i d - i) (drop i s)))"
  using assms
proof (induction s i d rule: read_number_loop.induct)
  case (1 s i has_dot)
  let ?c = "char_at s i"
  show ?case
  proof (cases "?c \<noteq> CHR 0x00 \<and> (isdigit ?c \<or> (?c = CHR ''.'' \<and> \<not> has_dot))")
    case False
    then have "read_number_loop s i has_dot = i"
      by (rule read_number_loop_stop)
    with False show ?thesis
      by (auto simp: isdigit_nonzero)
  next
    case True
    then have il: "i < length s"
      by (auto dest: char_at_nonzero)
    show ?thesis
    proof (cases "isdigit ?c")
      case d: True
      with True il 1(1) have "\<not> isdigit (char_at s (read_number_loop s (i + 1) has_dot)) \<and>
         (char_at s (read_number_loop s (i + 1) has_dot) = CHR ''.'' \<longrightarrow>
            has_dot \<or> CHR ''.'' \<in> set (take (read_number_loop s (i + 1) has_dot - (i + 1)) (drop (i + 1) s)))"
        by simp
      moreover note read_number_loop_step[of s i has_dot]
      ultimately show ?thesis
        using True d by (simp only: simp_thms if_True) auto
    next
      case nd: False
      with True il 1(2) have "\<not> isdigit (char_at s (read_number_loop s (i + 1) True))"
        by simp
      moreover note read_number_loop_step[of s i has_dot]
      ultimately show ?thesis
        using True nd by (simp only: simp_thms if_False) auto
    qed
  qed
qed


lemma lexer_next_token_number:
  assumes "isdigit (char_at (input l) (token_start l)) \<or>
      (char_at (input l) (token_start l) = CHR ''.'' \<and>
       isdigit (char_at (input l) (token_start l + 1)))"
  shows "lexer_next_token v m l =
      (\<lparr>tok_type = TOKEN_NUMBER,
        tok_value = c_atof m (token_text (input l) (token_start l)
           (read_number_loop (input l) (token_start l) False)),
        tok_text = token_text (input l) (token_start l)
           (read_number_loop (input l) (token_start l) False)\<rparr>,
       l\<lparr>position := read_number_loop (input l) (token_start l) False\<rparr>)"
proof -
  from assms have "char_at (input l) (token_start l) \<noteq> CHR 0x00"
    by (auto dest: isdigit_nonzero)
  with assms show ?thesis
    by (simp add: lexer_next_token_def lexer_skip_whitespace_def lexer_read_number_def
        token_start_def Let_def)
qed

lemma lexer_next_token_not_number:
  assumes "\<not> (isdigit (char_at (input l) (token_start l)) \<or>
      (char_at (input l) (token_start l) = CHR ''.'' \<and>
       isdigit (char_at (input l) (token_start l + 1))))"
  shows "tok_type (fst (lexer_next_token v m l)) \<noteq> TOKEN_NUMBER"
  using assms
  by (auto simp: lexer_next_token_def lexer_skip_whitespace_def lexer_read_identifier_def
      token_start_def Let_def)

lemma lexer_next_token_dot:
  assumes "char_at (input l) (token_start l) = CHR ''.''"
    and "\<not> isdigit (char_at (input l) (token_start l + 1))"
  shows "lexer_next_token v m l =
      (\<lparr>tok_type = TOKEN_ERROR, tok_value = 0, tok_text = msg_unexpected_character v @ ''.''\<rparr>,
       l\<lparr>position := token_start l + 1\<rparr>)"
  using assms
  by (simp add: lexer_next_token_def lexer_skip_whitespace_def token_start_def Let_def
      isalpha_def)

lemma token_text_take:
  "token_text s i k = take 255 (take (k - i) (drop i s))"
  by (cases "256 \<le> k - i") (simp_all add: token_text_def MAX_TOKEN_LEN_def Let_def)

lemma number_start_pattern:
  assumes "isdigit (char_at s i) \<or> (char_at s i = CHR ''.'' \<and> isdigit (char_at s (i + 1)))"
  shows "lexer_number_pattern (take (read_number_loop s i False - i) (drop i s))"
proof -
  let ?w = "take (read_number_loop s i False - i) (drop i s)"
  from assms have nz: "char_at s i \<noteq> CHR 0x00"
    by (auto dest: isdigit_nonzero)
  then have il: "i \<le> length s"
    by (auto dest: char_at_nonzero)
  note pat = read_number_loop_pattern[OF il, of False, simplified]
  show ?thesis
  proof (cases "isdigit (char_at s i)")
    case True
    with nz have "?w = char_at s i # take (read_number_loop s (i + 1) False - (i + 1)) (drop (i + 1) s)"
      using read_number_loop_step(2)[of s i False] by simp
    with True have "takeWhile isdigit ?w \<noteq> []"
      by simp
    with pat show ?thesis
      by (auto simp: lexer_number_pattern_def Let_def)
  next
    case False
    with assms have dot: "char_at s i = CHR ''.''" and d1: "isdigit (char_at s (i + 1))"
      by auto
    from d1 have nz1: "char_at s (i + 1) \<noteq> CHR 0x00"
      by (auto dest: isdigit_nonzero)
    from nz dot have 1: "?w = CHR ''.'' # take (read_number_loop s (i + 1) True - (i + 1)) (drop (i + 1) s)"
      using read_number_loop_step(2)[of s i False] by simp
    from nz1 d1 have 2: "take (read_number_loop s (i + 1) True - (i + 1)) (drop (i + 1) s) =
        char_at s (i + 1) # take (read_number_loop s (i + 1 + 1) True - (i + 1 + 1)) (drop (i + 1 + 1) s)"
      using read_number_loop_step(2)[of s "i + 1" True] by simp
    from nz1 have "i + 1 \<le> length s"
      by (auto dest: char_at_nonzero)
    from read_number_loop_digits[OF this, of True]
    have "list_all isdigit (take (read_number_loop s (i + 1) True - (i + 1)) (drop (i + 1) s))"
      by simp
    with 1 2 show ?thesis
      by (simp add: lexer_number_pattern_def Let_def)
  qed
qed

lemma char_at_append_length [simp]: "char_at (w @ r) (length w) = char_at r 0"
  by (cases r) (simp_all add: char_at_def)

lemma char_at_append_length_plus [simp]: "char_at (w @ r) (length w + k) = char_at r k"
  by (simp add: char_at_def nth_append)

lemma read_number_loop_skip_digits:
  assumes "list_all isdigit ds"
  shows "read_number_loop (pre @ ds @ r) (length pre) d =
         read_number_loop (pre @ ds @ r) (length pre + length ds) d"
  using assms
proof (induction ds arbitrary: pre)
  case Nil
  show ?case by simp
next
  case (Cons c ds)
  from Cons.prems have c: "isdigit c" and ds: "list_all isdigit ds"
    by simp_all
  have at: "char_at (pre @ (c # ds) @ r) (length pre) = c"
    by (simp add: char_at_def)
  with c have "read_number_loop (pre @ (c # ds) @ r) (length pre) d =
      read_number_loop (pre @ (c # ds) @ r) (length pre + 1) d"
    using read_number_loop_step(1)[of "pre @ (c # ds) @ r" "length pre" d]
    by (simp add: isdigit_nonzero)
  also have "\<dots> = read_number_loop ((pre @ [c]) @ ds @ r) (length (pre @ [c])) d"
    by simp
  also have "\<dots> = read_number_loop ((pre @ [c]) @ ds @ r) (length (pre @ [c]) + length ds) d"
    using ds by (rule Cons.IH)
  finally show ?case
    by simp
qed

lemma read_number_loop_complete:
  assumes w: "lexer_number_pattern w"
    and r: "\<not> isdigit (char_at r 0)" "char_at r 0 = CHR ''.'' \<longrightarrow> CHR ''.'' \<in> set w"
  shows "read_number_loop (w @ r) 0 False = length w"
proof -
  define ip rest where "ip = takeWhile isdigit w" and "rest = dropWhile isdigit w"
  have split: "w = ip @ rest"
    by (simp add: ip_def rest_def)
  have ip: "list_all isdigit ip"
    unfolding ip_def by (simp add: list_all_iff) (meson set_takeWhileD)
  from w have pat: "rest = [] \<or> (hd rest = CHR ''.'' \<and> list_all isdigit (tl rest))"
    by (auto simp: lexer_number_pattern_def Let_def rest_def)
  have 1: "read_number_loop (w @ r) 0 False = read_number_loop (w @ r) (length ip) False"
    using read_number_loop_skip_digits[OF ip, of "[]" "rest @ r" False] by (simp add: split)
  show ?thesis
  proof (cases "rest = []")
    case True
    with split have eq: "w = ip"
      by simp
    with ip have "CHR ''.'' \<notin> set w"
      by (auto simp: list_all_iff)
    with r have "read_number_loop (w @ r) (length w) False = length w"
      by (intro read_number_loop_stop) auto
    with 1 eq show ?thesis
      by simp
  next
    case False
    with pat obtain fp where rest: "rest = CHR ''.'' # fp" and fp: "list_all isdigit fp"
      by (cases rest) auto
    have weq: "w = ip @ CHR ''.'' # fp"
      using split rest by simp
    have at: "char_at (w @ r) (length ip) = CHR ''.''"
      unfolding weq by (simp add: char_at_def nth_append)
    have "read_number_loop (w @ r) (length ip) False =
        read_number_loop (w @ r) (length ip + 1) True"
      using read_number_loop_step(1)[of "w @ r" "length ip" False] at by simp
    also have "\<dots> = read_number_loop ((ip @ [CHR ''.'']) @ fp @ r)
        (length (ip @ [CHR ''.''])) True"
      unfolding weq by simp
    also have "\<dots> = read_number_loop ((ip @ [CHR ''.'']) @ fp @ r)
        (length (ip @ [CHR ''.'']) + length fp) True"
      using fp by (rule read_number_loop_skip_digits)
    also have "\<dots> = read_number_loop (w @ r) (length w) True"
      unfolding weq by simp
    also have "\<dots> = length w"
      using r by (intro read_number_loop_stop) auto
    finally show ?thesis
      using 1 by simp
  qed
qed

lemma number_pattern_start:
  assumes "lexer_number_pattern w"
  shows "w \<noteq> [] \<and> \<not> isspace (char_at (w @ r) 0) \<and>
    (isdigit (char_at (w @ r) 0) \<or>
     (char_at (w @ r) 0 = CHR ''.'' \<and> isdigit (char_at (w @ r) 1)))"
proof (cases w)
  case Nil
  with assms show ?thesis
    by (simp add: lexer_number_pattern_def)
next
  case (Cons c cs)
  show ?thesis
  proof (cases "isdigit c")
    case True
    with Cons show ?thesis
      by (auto simp: char_at_def isdigit_def isspace_def)
  next
    case False
    with assms Cons obtain d ds where "c = CHR ''.''" "cs = d # ds" "isdigit d"
      by (cases cs) (auto simp: lexer_number_pattern_def Let_def)
    with Cons show ?thesis
      by (auto simp: char_at_def isspace_def)
  qed
qed

lemma lexer_next_token_complete:
  assumes w: "lexer_number_pattern w"
    and r: "\<not> isdigit (char_at r 0)" "char_at r 0 = CHR ''.'' \<longrightarrow> CHR ''.'' \<in> set w"
  shows "lexer_next_token v m (lexer_init (w @ r)) =
      (\<lparr>tok_type = TOKEN_NUMBER, tok_value = c_atof m (take 255 w), tok_text = take 255 w\<rparr>,
       (lexer_init (w @ r))\<lparr>position := length w\<rparr>)"
proof -
  note st = number_pattern_start[OF w, of r]
  have ts: "token_start (lexer_init (w @ r)) = 0"
    using st by (subst token_start_def, subst skip_whitespace_loop.simps) (simp add: lexer_init_def)
  have "isdigit (char_at (input (lexer_init (w @ r))) (token_start (lexer_init (w @ r)))) \<or>
      (char_at (input (lexer_init (w @ r))) (token_start (lexer_init (w @ r))) = CHR ''.'' \<and>
       isdigit (char_at (input (lexer_init (w @ r))) (token_start (lexer_init (w @ r)) + 1)))"
    using st unfolding ts by (simp add: lexer_init_def)
  from lexer_next_token_number[OF this, of v m] show ?thesis
    unfolding ts
    by (simp add: lexer_init_def read_number_loop_complete[OF w r] token_text_take)
qed

subsection \<open>A unary expression that is the whole input\<close>


subsection \<open>The C rules follow the grammar\<close>

text \<open>
  A derivation of the grammar that is not extended by the next token, for an expression in
  which every operation is defined, is the run of the C rule: it returns the value of the
  expression and the state after it, and records no error.
\<close>

lemma run_Suc: "run v m r n p = Some x \<Longrightarrow> run v m r (Suc n) p = Some x"
  using fuel_Suc[of v m n] by (cases r; cases x) (auto split: if_splits)

lemma run_mono:
  assumes "run v m r n p = Some x" and "n \<le> n'"
  shows "run v m r n' p = Some x"
  using assms(2,1) by (induction rule: dec_induct) (simp_all add: run_Suc)








section \<open>Properties\<close>

lemma sin_four_neg: "sin (4::real) < 0"
proof -
  have s12: "0 < sin (1/2::real)"
    by (rule sin_gt_zero_02) simp_all
  have "sin (1/2::real) \<le> 1/2"
    by (rule sin_x_le_x) simp
  with s12 have "(sin (1/2::real))\<^sup>2 \<le> (1/2)\<^sup>2"
    by (intro power_mono) simp_all
  moreover have "cos (1::real) = 1 - 2 * (sin (1/2))\<^sup>2"
    using cos_double_sin[of "1/2::real"] by simp
  ultimately have c1: "0 < cos (1::real)"
    by (simp add: power2_eq_square)
  have s1: "0 < sin (1::real)"
    by (rule sin_gt_zero_02) simp_all
  have "sin (2::real) = 2 * sin 1 * cos 1"
    using sin_double[of "1::real"] by simp
  with s1 c1 have s2: "0 < sin (2::real)"
    by simp
  have "sin (4::real) = 2 * sin 2 * cos 2"
    using sin_double[of "2::real"] by simp
  with s2 cos_two_less_zero show ?thesis
    by (simp add: mult_pos_neg)
qed



text \<open>
  C5.  A unary function name applies to the single primary that follows it and to nothing
  more.  For each of the seven function tokens, \<^verbatim>\<open>parse_unary\<close> returns the library function (after
  the domain check of \<^verbatim>\<open>sqrt\<close> and \<^verbatim>\<open>log\<close>) of what \<^verbatim>\<open>parse_primary\<close> returns on the input after the
  name; a \<^verbatim>\<open>^\<close> that follows the primary is read by \<^verbatim>\<open>parse_power\<close> and raises the value of the
  function to the power.  So in every front-end and for every C library \<^verbatim>\<open>sin 2^2\<close> is
  \<open>pow (sin 2) 2\<close>, and the same for the six other names; a sign or a second function name after
  the name is not a primary and is rejected.  With the exact library \<^verbatim>\<open>sin 2^2\<close> is \<open>(sin 2)\<^sup>2\<close>,
  which is not \<open>sin (2\<^sup>2)\<close>.
\<close>

theorem unary_function_binds_primary:
  "(current_type p \<in> {TOKEN_SIN, TOKEN_COS, TOKEN_TAN, TOKEN_SQRT, TOKEN_LOG, TOKEN_EXP, TOKEN_ABS} \<longrightarrow>
      parse_unary v m (Suc n) p =
        (case parse_primary v m n (advance v m p) of
           None \<Rightarrow> None
         | Some (x, p1) \<Rightarrow>
             Some (case current_type p of
                     TOKEN_SIN \<Rightarrow> (c_sin m x, p1)
                   | TOKEN_COS \<Rightarrow> (c_cos m x, p1)
                   | TOKEN_TAN \<Rightarrow> (c_tan m x, p1)
                   | TOKEN_SQRT \<Rightarrow>
                       if x < 0 then (0, parser_error p1 (msg_sqrt_negative v))
                       else (c_sqrt m x, p1)
                   | TOKEN_LOG \<Rightarrow>
                       if x \<le> 0 then (0, parser_error p1 (msg_log_non_positive v))
                       else (c_log m x, p1)
                   | TOKEN_EXP \<Rightarrow> (c_exp m x, p1)
                   | TOKEN_ABS \<Rightarrow> (c_fabs m x, p1)
                   | _ \<Rightarrow> (x, p1))))
   \<and> (parse_unary v m (Suc n) p = Some (fx, p1) \<and> \<not> has_error p1
        \<and> current_type p1 = TOKEN_POWER \<longrightarrow>
      parse_power v m (Suc (Suc n)) p =
        (case parse_power v m (Suc n) (advance v m p1) of
           None \<Rightarrow> None
         | Some (y, p2) \<Rightarrow> Some (c_pow m fx y, p2)))
   \<and> evaluate v m ''sin 2^2'' = Some (Inr (c_pow m (c_sin m (c_atof m ''2'')) (c_atof m ''2'')))
   \<and> evaluate v m ''cos 2^2'' = Some (Inr (c_pow m (c_cos m (c_atof m ''2'')) (c_atof m ''2'')))
   \<and> evaluate v m ''tan 2^2'' = Some (Inr (c_pow m (c_tan m (c_atof m ''2'')) (c_atof m ''2'')))
   \<and> evaluate v m ''exp 2^2'' = Some (Inr (c_pow m (c_exp m (c_atof m ''2'')) (c_atof m ''2'')))
   \<and> evaluate v m ''abs 2^2'' = Some (Inr (c_pow m (c_fabs m (c_atof m ''2'')) (c_atof m ''2'')))
   \<and> evaluate v m ''sqrt 2^2'' =
        Some (if c_atof m ''2'' < 0 then Inl (msg_sqrt_negative v)
              else Inr (c_pow m (c_sqrt m (c_atof m ''2'')) (c_atof m ''2'')))
   \<and> evaluate v m ''log 2^2'' =
        Some (if c_atof m ''2'' \<le> 0 then Inl (msg_log_non_positive v)
              else Inr (c_pow m (c_log m (c_atof m ''2'')) (c_atof m ''2'')))
   \<and> evaluate v m ''sin -2'' = Some (Inl (msg_unexpected_token v @ ''-''))
   \<and> evaluate v m ''sin sin 2'' = Some (Inl (msg_unexpected_token v @ ''sin''))
   \<and> evaluate CLI ideal_libm ''sin 2^2'' = Some (Inr ((sin 2)\<^sup>2))
   \<and> (sin 2)\<^sup>2 \<noteq> sin ((2::real)\<^sup>2)"
proof -
  have r1: "current_type p \<in> {TOKEN_SIN, TOKEN_COS, TOKEN_TAN, TOKEN_SQRT, TOKEN_LOG, TOKEN_EXP, TOKEN_ABS} \<longrightarrow>
      parse_unary v m (Suc n) p =
        (case parse_primary v m n (advance v m p) of
           None \<Rightarrow> None
         | Some (x, p1) \<Rightarrow>
             Some (case current_type p of
                     TOKEN_SIN \<Rightarrow> (c_sin m x, p1)
                   | TOKEN_COS \<Rightarrow> (c_cos m x, p1)
                   | TOKEN_TAN \<Rightarrow> (c_tan m x, p1)
                   | TOKEN_SQRT \<Rightarrow>
                       if x < 0 then (0, parser_error p1 (msg_sqrt_negative v))
                       else (c_sqrt m x, p1)
                   | TOKEN_LOG \<Rightarrow>
                       if x \<le> 0 then (0, parser_error p1 (msg_log_non_positive v))
                       else (c_log m x, p1)
                   | TOKEN_EXP \<Rightarrow> (c_exp m x, p1)
                   | TOKEN_ABS \<Rightarrow> (c_fabs m x, p1)
                   | _ \<Rightarrow> (x, p1)))"
    by (auto simp: parse_unary.simps split: option.splits)
  have r2: "parse_unary v m (Suc n) p = Some (fx, p1) \<and> \<not> has_error p1
        \<and> current_type p1 = TOKEN_POWER \<longrightarrow>
      parse_power v m (Suc (Suc n)) p =
        (case parse_power v m (Suc n) (advance v m p1) of
           None \<Rightarrow> None
         | Some (y, p2) \<Rightarrow> Some (c_pow m fx y, p2))"
    by (subst parse_power.simps) simp
  have a: "evaluate v m ''sin 2^2'' =
      Some (Inr (c_pow m (c_sin m (c_atof m ''2'')) (c_atof m ''2'')))" for v m
    by (cases v; simp add: eval_defs cong: let_weak_cong)
  have a2: "evaluate v m ''cos 2^2'' =
      Some (Inr (c_pow m (c_cos m (c_atof m ''2'')) (c_atof m ''2'')))"
    by (cases v; simp add: eval_defs cong: let_weak_cong)
  have a3: "evaluate v m ''tan 2^2'' =
      Some (Inr (c_pow m (c_tan m (c_atof m ''2'')) (c_atof m ''2'')))"
    by (cases v; simp add: eval_defs cong: let_weak_cong)
  have a4: "evaluate v m ''exp 2^2'' =
      Some (Inr (c_pow m (c_exp m (c_atof m ''2'')) (c_atof m ''2'')))"
    by (cases v; simp add: eval_defs cong: let_weak_cong)
  have a5: "evaluate v m ''abs 2^2'' =
      Some (Inr (c_pow m (c_fabs m (c_atof m ''2'')) (c_atof m ''2'')))"
    by (cases v; simp add: eval_defs cong: let_weak_cong)
  have a6: "evaluate v m ''sqrt 2^2'' =
        Some (if c_atof m ''2'' < 0 then Inl (msg_sqrt_negative v)
              else Inr (c_pow m (c_sqrt m (c_atof m ''2'')) (c_atof m ''2'')))"
    by (cases v; cases "c_atof m ''2'' < 0"; simp add: eval_defs cong: let_weak_cong)
  have a7: "evaluate v m ''log 2^2'' =
        Some (if c_atof m ''2'' \<le> 0 then Inl (msg_log_non_positive v)
              else Inr (c_pow m (c_log m (c_atof m ''2'')) (c_atof m ''2'')))"
    by (cases v; cases "c_atof m ''2'' \<le> 0"; simp add: eval_defs cong: let_weak_cong)
  have a8: "evaluate v m ''sin -2'' = Some (Inl (msg_unexpected_token v @ ''-''))"
    by (cases v; simp add: eval_defs cong: let_weak_cong)
  have a9: "evaluate v m ''sin sin 2'' = Some (Inl (msg_unexpected_token v @ ''sin''))"
    by (cases v; simp add: eval_defs cong: let_weak_cong)
  have b: "evaluate CLI ideal_libm ''sin 2^2'' = Some (Inr ((sin 2)\<^sup>2))"
    unfolding a by (simp add: ideal_defs isdigit_def cong: let_weak_cong)
  have c: "(sin 2)\<^sup>2 \<noteq> sin ((2::real)\<^sup>2)"
  proof
    assume "(sin 2)\<^sup>2 = sin ((2::real)\<^sup>2)"
    then have "sin (4::real) = (sin 2)\<^sup>2"
      by simp
    then have "0 \<le> sin (4::real)"
      by simp
    with sin_four_neg show False
      by simp
  qed
  from r1 r2 a a2 a3 a4 a5 a6 a7 a8 a9 b c show ?thesis by blast
qed

theorem unary_function_binds_primary_witness:
  "current_type (parser_init CLI ideal_libm (lexer_init ''cos 0^2''))
     \<in> {TOKEN_SIN, TOKEN_COS, TOKEN_TAN, TOKEN_SQRT, TOKEN_LOG, TOKEN_EXP, TOKEN_ABS}
   \<and> parse_unary CLI ideal_libm (Suc 3) (parser_init CLI ideal_libm (lexer_init ''cos 0^2'')) =
       Some (1, advance CLI ideal_libm (advance CLI ideal_libm
                  (parser_init CLI ideal_libm (lexer_init ''cos 0^2''))))
   \<and> \<not> has_error (advance CLI ideal_libm (advance CLI ideal_libm
                  (parser_init CLI ideal_libm (lexer_init ''cos 0^2''))))
   \<and> current_type (advance CLI ideal_libm (advance CLI ideal_libm
                  (parser_init CLI ideal_libm (lexer_init ''cos 0^2'')))) = TOKEN_POWER
   \<and> parse_power CLI ideal_libm (Suc (Suc 3))
         (parser_init CLI ideal_libm (lexer_init ''cos 0^2'')) =
       Some (1, advance CLI ideal_libm (advance CLI ideal_libm (advance CLI ideal_libm
             (advance CLI ideal_libm (parser_init CLI ideal_libm (lexer_init ''cos 0^2''))))))"
proof -
  let ?p = "parser_init CLI ideal_libm (lexer_init ''cos 0^2'')"
  let ?p1 = "advance CLI ideal_libm (advance CLI ideal_libm ?p)"
  have t: "current_type ?p
     \<in> {TOKEN_SIN, TOKEN_COS, TOKEN_TAN, TOKEN_SQRT, TOKEN_LOG, TOKEN_EXP, TOKEN_ABS}"
    by (simp add: eval_defs cong: let_weak_cong)
  have pr: "parse_primary CLI ideal_libm 3 (advance CLI ideal_libm ?p) = Some (0, ?p1)"
    by (simp add: eval_defs ideal_defs cong: let_weak_cong)
  have ct: "current_type ?p = TOKEN_COS"
    by (simp add: eval_defs cong: let_weak_cong)
  have u: "parse_unary CLI ideal_libm (Suc 3) ?p = Some (1, ?p1)"
    using unary_function_binds_primary[where p = ?p and v = CLI and m = ideal_libm and n = 3,
        THEN conjunct1, rule_format, OF t]
    unfolding pr ct by (simp add: ideal_libm_def)
  have e: "\<not> has_error ?p1" "current_type ?p1 = TOKEN_POWER"
    by (simp_all add: eval_defs cong: let_weak_cong)
  have pw: "parse_power CLI ideal_libm (Suc 3) (advance CLI ideal_libm ?p1) =
      Some (2, advance CLI ideal_libm (advance CLI ideal_libm ?p1))"
    by (simp add: parse_power.simps eval_defs ideal_defs cong: let_weak_cong)
  have "parse_power CLI ideal_libm (Suc (Suc 3)) ?p =
      Some (1, advance CLI ideal_libm (advance CLI ideal_libm ?p1))"
    using unary_function_binds_primary[where p = ?p and v = CLI and m = ideal_libm and n = 3
        and fx = 1 and ?p1.0 = ?p1,
        THEN conjunct2, THEN conjunct1, rule_format, OF conjI[OF u conjI[OF e]]]
    unfolding pw by (simp add: ideal_libm_def ideal_pow_def)
  with t u e show ?thesis
    by blast
qed

text \<open>
  C6.  In the Cocoa front-end \<^verbatim>\<open>parse_factor\<close> parses a power-expression and then loops: as long
  as no error is recorded and the current token is a number, \<^verbatim>\<open>pi\<close>, \<^verbatim>\<open>e\<close>, an opening parenthesis
  or one of the seven function names, the next power-expression is parsed and multiplied to the
  result; at any other token the loop returns.  The other front-ends have no such loop.  So
  \<^verbatim>\<open>2pi\<close> is \<open>2 * pi\<close>, \<^verbatim>\<open>2(3+4)\<close> is \<open>2 * (3 + 4)\<close>, which is 14 with the exact library,
  \<^verbatim>\<open>2 3 4\<close> is \<open>2 * 3 * 4\<close>, and the multiplicand is a whole power-expression: \<^verbatim>\<open>2 3^2\<close> is
  \<open>2 * pow 3 2\<close>.
\<close>

theorem implicit_multiplication_mac:
  "(implicit_multiplicand t \<longleftrightarrow>
      t \<in> {TOKEN_NUMBER, TOKEN_PI, TOKEN_E, TOKEN_LPAREN, TOKEN_SIN, TOKEN_COS, TOKEN_TAN,
           TOKEN_SQRT, TOKEN_LOG, TOKEN_EXP, TOKEN_ABS})
   \<and> parse_factor MAC m (Suc n) p =
       (case parse_power MAC m n p of
          None \<Rightarrow> None
        | Some (left, p1) \<Rightarrow> factor_loop MAC m n left p1)
   \<and> (\<not> has_error p
        \<and> current_type p \<in> {TOKEN_NUMBER, TOKEN_PI, TOKEN_E, TOKEN_LPAREN, TOKEN_SIN, TOKEN_COS,
             TOKEN_TAN, TOKEN_SQRT, TOKEN_LOG, TOKEN_EXP, TOKEN_ABS} \<longrightarrow>
      factor_loop MAC m (Suc n) left p =
        (case parse_power MAC m n p of
           None \<Rightarrow> None
         | Some (right, p1) \<Rightarrow> factor_loop MAC m n (left * right) p1))
   \<and> (has_error p
        \<or> current_type p \<notin> {TOKEN_NUMBER, TOKEN_PI, TOKEN_E, TOKEN_LPAREN, TOKEN_SIN, TOKEN_COS,
             TOKEN_TAN, TOKEN_SQRT, TOKEN_LOG, TOKEN_EXP, TOKEN_ABS} \<longrightarrow>
      factor_loop MAC m (Suc n) left p = Some (left, p))
   \<and> (v \<noteq> MAC \<longrightarrow> parse_factor v m (Suc n) p = parse_power v m n p)
   \<and> evaluate MAC m ''2pi'' = Some (Inr (c_atof m ''2'' * M_PI m))
   \<and> evaluate MAC m ''2e'' = Some (Inr (c_atof m ''2'' * M_E m))
   \<and> evaluate MAC m ''2(3+4)'' = Some (Inr (c_atof m ''2'' * (c_atof m ''3'' + c_atof m ''4'')))
   \<and> evaluate MAC m ''2sin(0)'' = Some (Inr (c_atof m ''2'' * c_sin m (c_atof m ''0'')))
   \<and> evaluate MAC m ''2cos(0)'' = Some (Inr (c_atof m ''2'' * c_cos m (c_atof m ''0'')))
   \<and> evaluate MAC m ''2tan(0)'' = Some (Inr (c_atof m ''2'' * c_tan m (c_atof m ''0'')))
   \<and> evaluate MAC m ''2exp(0)'' = Some (Inr (c_atof m ''2'' * c_exp m (c_atof m ''0'')))
   \<and> evaluate MAC m ''2abs(1)'' = Some (Inr (c_atof m ''2'' * c_fabs m (c_atof m ''1'')))
   \<and> evaluate MAC ideal_libm ''2sqrt(4)'' = Some (Inr (2 * sqrt 4))
   \<and> evaluate MAC ideal_libm ''2log(1)'' = Some (Inr (2 * ln 1))
   \<and> evaluate MAC m ''2 3 4'' = Some (Inr (c_atof m ''2'' * c_atof m ''3'' * c_atof m ''4''))
   \<and> evaluate MAC m ''2 3^2'' =
       Some (Inr (c_atof m ''2'' * c_pow m (c_atof m ''3'') (c_atof m ''2'')))
   \<and> evaluate MAC m ''2^3 4'' =
       Some (Inr (c_pow m (c_atof m ''2'') (c_atof m ''3'') * c_atof m ''4''))
   \<and> evaluate MAC ideal_libm ''2pi'' = Some (Inr (2 * pi))
   \<and> evaluate MAC ideal_libm ''2(3+4)'' = Some (Inr 14)"
proof -
  let ?S = "{TOKEN_NUMBER, TOKEN_PI, TOKEN_E, TOKEN_LPAREN, TOKEN_SIN, TOKEN_COS, TOKEN_TAN,
           TOKEN_SQRT, TOKEN_LOG, TOKEN_EXP, TOKEN_ABS}"
  have r0: "implicit_multiplicand t \<longleftrightarrow> t \<in> ?S" for t
    by (auto simp: implicit_multiplicand_def)
  have r1: "parse_factor MAC m (Suc n) p =
       (case parse_power MAC m n p of
          None \<Rightarrow> None
        | Some (left, p1) \<Rightarrow> factor_loop MAC m n left p1)"
    by (simp add: parse_factor.simps implicit_multiplication_def split: option.splits)
  have r2: "\<not> has_error p \<and> current_type p \<in> ?S \<longrightarrow>
      factor_loop MAC m (Suc n) left p =
        (case parse_power MAC m n p of
           None \<Rightarrow> None
         | Some (right, p1) \<Rightarrow> factor_loop MAC m n (left * right) p1)"
    unfolding r0[symmetric] by (simp add: factor_loop.simps)
  have r3: "has_error p \<or> current_type p \<notin> ?S \<longrightarrow>
      factor_loop MAC m (Suc n) left p = Some (left, p)"
    unfolding r0[symmetric] by (simp add: factor_loop.simps)
  have r4: "v \<noteq> MAC \<longrightarrow> parse_factor v m (Suc n) p = parse_power v m n p"
    by (simp add: parse_factor.simps implicit_multiplication_def split: option.splits)
  have a: "evaluate MAC m ''2pi'' = Some (Inr (c_atof m ''2'' * M_PI m))" for m
    by (simp add: eval_defs cong: let_weak_cong)
  have a2: "evaluate MAC m ''2e'' = Some (Inr (c_atof m ''2'' * M_E m))"
    by (simp add: eval_defs cong: let_weak_cong)
  have b: "evaluate MAC m ''2(3+4)'' =
      Some (Inr (c_atof m ''2'' * (c_atof m ''3'' + c_atof m ''4'')))" for m
    by (simp add: eval_defs cong: let_weak_cong)
  have c: "evaluate MAC m ''2sin(0)'' = Some (Inr (c_atof m ''2'' * c_sin m (c_atof m ''0'')))"
    by (simp add: eval_defs cong: let_weak_cong)
  have c2: "evaluate MAC m ''2cos(0)'' = Some (Inr (c_atof m ''2'' * c_cos m (c_atof m ''0'')))"
    by (simp add: eval_defs cong: let_weak_cong)
  have c3: "evaluate MAC m ''2tan(0)'' = Some (Inr (c_atof m ''2'' * c_tan m (c_atof m ''0'')))"
    by (simp add: eval_defs cong: let_weak_cong)
  have c4: "evaluate MAC m ''2exp(0)'' = Some (Inr (c_atof m ''2'' * c_exp m (c_atof m ''0'')))"
    by (simp add: eval_defs cong: let_weak_cong)
  have c5: "evaluate MAC m ''2abs(1)'' = Some (Inr (c_atof m ''2'' * c_fabs m (c_atof m ''1'')))"
    by (simp add: eval_defs cong: let_weak_cong)
  have c6: "evaluate MAC ideal_libm ''2sqrt(4)'' = Some (Inr (2 * sqrt 4))"
    by (simp add: eval_defs ideal_defs cong: let_weak_cong)
  have c7: "evaluate MAC ideal_libm ''2log(1)'' = Some (Inr (2 * ln 1))"
    by (simp add: eval_defs ideal_defs cong: let_weak_cong)
  have d: "evaluate MAC m ''2 3 4'' =
      Some (Inr (c_atof m ''2'' * c_atof m ''3'' * c_atof m ''4''))"
    by (simp add: eval_defs cong: let_weak_cong)
  have d2: "evaluate MAC m ''2 3^2'' =
       Some (Inr (c_atof m ''2'' * c_pow m (c_atof m ''3'') (c_atof m ''2'')))"
    by (simp add: eval_defs cong: let_weak_cong)
  have d3: "evaluate MAC m ''2^3 4'' =
       Some (Inr (c_pow m (c_atof m ''2'') (c_atof m ''3'') * c_atof m ''4''))"
    by (simp add: eval_defs cong: let_weak_cong)
  have e: "evaluate MAC ideal_libm ''2pi'' = Some (Inr (2 * pi))"
    unfolding a by (simp add: ideal_defs isdigit_def cong: let_weak_cong)
  have f: "evaluate MAC ideal_libm ''2(3+4)'' = Some (Inr 14)"
    unfolding b by (simp add: ideal_defs isdigit_def cong: let_weak_cong)
  show ?thesis
    apply (intro conjI)
    apply (rule r0 r1 r2 r3 r4 a a2 b c c2 c3 c4 c5 c6 c7 d d2 d3 e f)+
    done
qed

theorem implicit_multiplication_mac_witness:
  "\<not> has_error (advance MAC ideal_libm (parser_init MAC ideal_libm (lexer_init ''2pi'')))
   \<and> current_type (advance MAC ideal_libm (parser_init MAC ideal_libm (lexer_init ''2pi'')))
       \<in> {TOKEN_NUMBER, TOKEN_PI, TOKEN_E, TOKEN_LPAREN, TOKEN_SIN, TOKEN_COS,
             TOKEN_TAN, TOKEN_SQRT, TOKEN_LOG, TOKEN_EXP, TOKEN_ABS}
   \<and> factor_loop MAC ideal_libm (Suc 5) 2
        (advance MAC ideal_libm (parser_init MAC ideal_libm (lexer_init ''2pi''))) =
       Some (2 * pi, advance MAC ideal_libm (advance MAC ideal_libm
               (parser_init MAC ideal_libm (lexer_init ''2pi''))))
   \<and> current_type (advance MAC ideal_libm (advance MAC ideal_libm
               (parser_init MAC ideal_libm (lexer_init ''2pi''))))
       \<notin> {TOKEN_NUMBER, TOKEN_PI, TOKEN_E, TOKEN_LPAREN, TOKEN_SIN, TOKEN_COS,
             TOKEN_TAN, TOKEN_SQRT, TOKEN_LOG, TOKEN_EXP, TOKEN_ABS}
   \<and> factor_loop MAC ideal_libm (Suc 4) (2 * pi)
        (advance MAC ideal_libm (advance MAC ideal_libm
               (parser_init MAC ideal_libm (lexer_init ''2pi'')))) =
       Some (2 * pi, advance MAC ideal_libm (advance MAC ideal_libm
               (parser_init MAC ideal_libm (lexer_init ''2pi''))))
   \<and> TUI \<noteq> MAC
   \<and> parse_factor TUI ideal_libm (Suc 5) (parser_init TUI ideal_libm (lexer_init ''2pi'')) =
       Some (2, advance TUI ideal_libm (parser_init TUI ideal_libm (lexer_init ''2pi'')))"
proof -
  let ?S = "{TOKEN_NUMBER, TOKEN_PI, TOKEN_E, TOKEN_LPAREN, TOKEN_SIN, TOKEN_COS,
             TOKEN_TAN, TOKEN_SQRT, TOKEN_LOG, TOKEN_EXP, TOKEN_ABS}"
  let ?p = "parser_init MAC ideal_libm (lexer_init ''2pi'')"
  let ?p1 = "advance MAC ideal_libm ?p"
  let ?p2 = "advance MAC ideal_libm ?p1"
  let ?q = "parser_init TUI ideal_libm (lexer_init ''2pi'')"
  have h1: "\<not> has_error ?p1 \<and> current_type ?p1 \<in> ?S"
    by (simp add: eval_defs cong: let_weak_cong)
  have h2': "current_type ?p2 \<notin> ?S"
    by (simp add: eval_defs cong: let_weak_cong)
  then have h2: "has_error ?p2 \<or> current_type ?p2 \<notin> ?S" ..
  have h3: "TUI \<noteq> MAC"
    by simp
  have pw: "parse_power MAC ideal_libm 5 ?p1 = Some (pi, ?p2)"
    by (simp add: eval_defs ideal_defs cong: let_weak_cong)
  have pq: "parse_power TUI ideal_libm 5 ?q = Some (2, advance TUI ideal_libm ?q)"
    by (simp add: eval_defs ideal_defs cong: let_weak_cong)
  have stop: "factor_loop MAC ideal_libm (Suc 4) (2 * pi) ?p2 = Some (2 * pi, ?p2)"
    using implicit_multiplication_mac[where m = ideal_libm and n = 4 and p = ?p2
        and left = "2 * pi", THEN conjunct2, THEN conjunct2, THEN conjunct2, THEN conjunct1,
        rule_format, OF h2] .
  have step: "factor_loop MAC ideal_libm (Suc 5) 2 ?p1 = Some (2 * pi, ?p2)"
    using implicit_multiplication_mac[where m = ideal_libm and n = 5 and p = ?p1
        and left = 2, THEN conjunct2, THEN conjunct2, THEN conjunct1, rule_format, OF h1] stop
    unfolding pw by (simp add: eval_nat_numeral)
  have other: "parse_factor TUI ideal_libm (Suc 5) ?q = Some (2, advance TUI ideal_libm ?q)"
    using implicit_multiplication_mac[where m = ideal_libm and n = 5 and p = ?q
        and v = TUI, THEN conjunct2, THEN conjunct2, THEN conjunct2, THEN conjunct2,
        THEN conjunct1, rule_format, OF h3]
    unfolding pq .
  from h1 h2' h3 stop step other show ?thesis
    by blast
qed


text \<open>
  C3.  The code at the inputs where it departs from the claim: in \<^verbatim>\<open>log(1/0)\<close> and \<^verbatim>\<open>5%(1/0)\<close>
  the division has the right operand 0, and \<open>evaluate\<close> fails with another error kind; in
  \<^verbatim>\<open>1/\<close> there is no right operand, and \<open>evaluate\<close> reports a division by zero.
\<close>

theorem division_by_zero_overwritten:
  "evaluate TUI ideal_libm ''log(1/0)'' = Some (Inl ''Log of non-positive'')
   \<and> evaluate TUI ideal_libm ''5%(1/0)'' = Some (Inl ''Modulo by zero'')
   \<and> evaluate TUI ideal_libm ''1/'' = Some (Inl ''Division by zero'')"
  by (simp add: eval_defs ideal_defs cong: let_weak_cong)



text \<open>
  C9, as the specification states it, fails on \<^verbatim>\<open>1.\<close>: the lexer makes one number token of
  the two characters, and \<^verbatim>\<open>1.\<close> does not match \<^verbatim>\<open>[0-9]+(\.[0-9]+)?\<close>.
\<close>

theorem number_pattern_counterexample:
  "map_option (tok_type \<circ> fst) (Some (lexer_next_token CLI ideal_libm (lexer_init ''1.''))) =
     Some TOKEN_NUMBER
   \<and> map_option (tok_text \<circ> fst) (Some (lexer_next_token CLI ideal_libm (lexer_init ''1.''))) =
     Some ''1.''
   \<and> \<not> spec_number_pattern ''1.''
   \<and> evaluate CLI ideal_libm ''1.+2'' = Some (Inr 3)"
  by (simp add: eval_defs ideal_defs spec_number_pattern_def cong: let_weak_cong)

text \<open>
  C9, amended.  The token read by \<^verbatim>\<open>lexer_next_token\<close> is a number exactly when the first
  character after the white space is a digit, or a dot with a digit right after it.  The
  characters the token covers then match \<^verbatim>\<open>[0-9]+(\.[0-9]*)?\<close> or \<^verbatim>\<open>\.[0-9]+\<close> (at most one dot, a
  digit on at least one side of it) and go as far as they can: no digit follows, and a dot
  follows only after a token that has one.  The first 255 of them are the token's text, and
  its value is \<^verbatim>\<open>atof\<close> of that text.  A dot with no digit after it is the unexpected-character
  error, one character long.  Conversely every text of the pattern, followed by a character
  that cannot continue it, is read as one number token.
\<close>

theorem number_token_pattern:
  assumes "lexer_next_token v m l = (t, l')"
  shows "(tok_type t = TOKEN_NUMBER \<longleftrightarrow>
            isdigit (char_at (input l) (token_start l)) \<or>
            (char_at (input l) (token_start l) = CHR ''.'' \<and>
             isdigit (char_at (input l) (token_start l + 1))))
    \<and> (tok_type t = TOKEN_NUMBER \<longrightarrow>
          lexer_number_pattern (matched_text l l')
          \<and> tok_text t = take 255 (matched_text l l')
          \<and> tok_value t = c_atof m (tok_text t)
          \<and> \<not> isdigit (char_at (input l) (position l'))
          \<and> (char_at (input l) (position l') = CHR ''.'' \<longrightarrow>
               CHR ''.'' \<in> set (matched_text l l')))
    \<and> (char_at (input l) (token_start l) = CHR ''.'' \<and>
        \<not> isdigit (char_at (input l) (token_start l + 1)) \<longrightarrow>
          tok_type t = TOKEN_ERROR \<and> tok_text t = msg_unexpected_character v @ ''.''
          \<and> position l' = token_start l + 1)
    \<and> (lexer_number_pattern w \<and> \<not> isdigit (char_at r 0)
        \<and> (char_at r 0 = CHR ''.'' \<longrightarrow> CHR ''.'' \<in> set w) \<longrightarrow>
          lexer_next_token v m (lexer_init (w @ r)) =
            (\<lparr>tok_type = TOKEN_NUMBER, tok_value = c_atof m (take 255 w),
              tok_text = take 255 w\<rparr>,
             (lexer_init (w @ r))\<lparr>position := length w\<rparr>))"
proof (cases "isdigit (char_at (input l) (token_start l)) \<or>
            (char_at (input l) (token_start l) = CHR ''.'' \<and>
             isdigit (char_at (input l) (token_start l + 1)))")
  case True
  let ?s = "input l" and ?i = "token_start l"
  let ?k = "read_number_loop ?s ?i False"
  from True have "char_at ?s ?i \<noteq> CHR 0x00"
    by (auto dest: isdigit_nonzero)
  then have il: "?i \<le> length ?s"
    by (auto dest: char_at_nonzero)
  from lexer_next_token_number[OF True, of v m] assms
  have t: "t = \<lparr>tok_type = TOKEN_NUMBER, tok_value = c_atof m (token_text ?s ?i ?k),
        tok_text = token_text ?s ?i ?k\<rparr>"
    and l': "l' = l\<lparr>position := ?k\<rparr>"
    by simp_all
  have mt: "matched_text l l' = take (?k - ?i) (drop ?i ?s)"
    by (simp add: matched_text_def l')
  have "lexer_number_pattern (matched_text l l')"
    unfolding mt using True by (rule number_start_pattern)
  moreover have "tok_text t = take 255 (matched_text l l')"
    by (simp add: t mt token_text_take)
  moreover have "tok_value t = c_atof m (tok_text t)"
    by (simp add: t)
  moreover have "\<not> isdigit (char_at ?s (position l')) \<and>
      (char_at ?s (position l') = CHR ''.'' \<longrightarrow> CHR ''.'' \<in> set (matched_text l l'))"
    unfolding mt using read_number_loop_maximal[OF il, of False] by (simp add: l')
  moreover have "tok_type t = TOKEN_NUMBER"
    by (simp add: t)
  ultimately show ?thesis
    using True lexer_next_token_complete[of w r v m] by auto
next
  case False
  from lexer_next_token_not_number[OF False, of v m] assms have nn: "tok_type t \<noteq> TOKEN_NUMBER"
    by simp
  show ?thesis
  proof (cases "char_at (input l) (token_start l) = CHR ''.''")
    case True
    with False have "\<not> isdigit (char_at (input l) (token_start l + 1))"
      by simp
    from lexer_next_token_dot[OF True this, of v m] assms nn False show ?thesis
      using lexer_next_token_complete[of w r v m] by auto
  next
    case nd: False
    with nn False show ?thesis
      using lexer_next_token_complete[of w r v m] by simp
  qed
qed


theorem number_token_pattern_witness:
  "lexer_next_token CLI ideal_libm (lexer_init '' 1.+2'') =
     (\<lparr>tok_type = TOKEN_NUMBER, tok_value = 1, tok_text = ''1.''\<rparr>,
      (lexer_init '' 1.+2'')\<lparr>position := 3\<rparr>)
   \<and> lexer_number_pattern (matched_text (lexer_init '' 1.+2'')
        ((lexer_init '' 1.+2'')\<lparr>position := 3\<rparr>))
   \<and> matched_text (lexer_init '' 1.+2'') ((lexer_init '' 1.+2'')\<lparr>position := 3\<rparr>) = ''1.''
   \<and> lexer_next_token TUI ideal_libm (lexer_init ''.+'') =
     (\<lparr>tok_type = TOKEN_ERROR, tok_value = 0, tok_text = msg_unexpected_character TUI @ ''.''\<rparr>,
      (lexer_init ''.+'')\<lparr>position := 1\<rparr>)
   \<and> char_at (input (lexer_init ''.+'')) (token_start (lexer_init ''.+'')) = CHR ''.''
   \<and> \<not> isdigit (char_at (input (lexer_init ''.+'')) (token_start (lexer_init ''.+'') + 1))
   \<and> lexer_number_pattern ''.5'' \<and> \<not> isdigit (char_at ''.5'' 0)
   \<and> CHR ''.'' \<in> set ''.5''
   \<and> lexer_next_token CLI ideal_libm (lexer_init (''.5'' @ ''.5'')) =
     (\<lparr>tok_type = TOKEN_NUMBER, tok_value = c_atof ideal_libm (take 255 ''.5''),
       tok_text = take 255 ''.5''\<rparr>,
      (lexer_init (''.5'' @ ''.5''))\<lparr>position := length ''.5''\<rparr>)"
proof -
  let ?l = "lexer_init '' 1.+2''"
  let ?t = "\<lparr>tok_type = TOKEN_NUMBER, tok_value = 1, tok_text = ''1.''\<rparr>"
  have h: "lexer_next_token CLI ideal_libm ?l = (?t, ?l\<lparr>position := 3\<rparr>)"
    by (simp add: lex_defs ideal_defs Let_def cong: let_weak_cong)
  have a: "lexer_number_pattern (matched_text ?l (?l\<lparr>position := 3\<rparr>))"
    using number_token_pattern[OF h, THEN conjunct2, THEN conjunct1] by simp
  have b: "matched_text ?l (?l\<lparr>position := 3\<rparr>) = ''1.''"
    by (simp add: matched_text_def token_start_def lex_defs)
  let ?k = "lexer_init ''.+''"
  have h2: "lexer_next_token TUI ideal_libm ?k =
      (\<lparr>tok_type = TOKEN_ERROR, tok_value = 0, tok_text = msg_unexpected_character TUI @ ''.''\<rparr>,
       ?k\<lparr>position := 1\<rparr>)"
    by (simp add: lex_defs ideal_defs Let_def cong: let_weak_cong)
  have c: "char_at (input ?k) (token_start ?k) = CHR ''.''"
    "\<not> isdigit (char_at (input ?k) (token_start ?k + 1))"
    by (simp_all add: token_start_def lex_defs)
  have d: "tok_type (fst (lexer_next_token TUI ideal_libm ?k)) = TOKEN_ERROR"
    using number_token_pattern[OF h2, THEN conjunct2, THEN conjunct2, THEN conjunct1,
        rule_format, OF conjI[OF c]]
    by (simp add: h2)
  have e': "CHR ''.'' \<in> set ''.5''"
    by simp
  have e: "lexer_number_pattern ''.5''" "\<not> isdigit (char_at ''.5'' 0)"
    "char_at ''.5'' 0 = CHR ''.'' \<longrightarrow> CHR ''.'' \<in> set ''.5''"
    by (simp_all add: lexer_number_pattern_def char_at_def isdigit_def)
  have f: "lexer_next_token CLI ideal_libm (lexer_init (''.5'' @ ''.5'')) =
     (\<lparr>tok_type = TOKEN_NUMBER, tok_value = c_atof ideal_libm (take 255 ''.5''),
       tok_text = take 255 ''.5''\<rparr>,
      (lexer_init (''.5'' @ ''.5''))\<lparr>position := length ''.5''\<rparr>)"
    using number_token_pattern[OF h, where w = "''.5''" and r = "''.5''",
        THEN conjunct2, THEN conjunct2, THEN conjunct2, rule_format,
        OF conjI[OF e(1) conjI[OF e(2) e(3)]]] .
  from h a b h2 c e(1,2) e' f show ?thesis
    by blast
qed

text \<open>
  C7.  Whenever the top-level call of \<^verbatim>\<open>parse_expression\<close> returns without an error and the
  current token is not the end marker, \<open>evaluate\<close> fails with the trailing-tokens message,
  whatever the remaining input is.
\<close>

theorem trailing_tokens_rejected:
  assumes "parse_expression v m n (parser_init v m (lexer_init s)) = Some (x, p)"
    and "\<not> has_error p"
    and "current_type p \<noteq> TOKEN_EOF"
  shows "evaluate v m s = Some (Inl (msg_extra_tokens v))"
  using evaluate_any_fuel[OF assms(1)] assms(2,3) by (simp add: finish_extra)

theorem trailing_tokens_rejected_witness:
  "parse_expression TUI ideal_libm 20 (parser_init TUI ideal_libm (lexer_init ''2 3'')) =
     Some (2, \<lparr>lexer = \<lparr>input = ''2 3'', position = 3,
        current = \<lparr>tok_type = TOKEN_NUMBER, tok_value = 3, tok_text = ''3''\<rparr>\<rparr>,
        error = [], has_error = False\<rparr>)
   \<and> evaluate TUI ideal_libm ''2 3'' = Some (Inl ''Extra tokens'')"
proof -
  let ?p = "\<lparr>lexer = \<lparr>input = ''2 3'', position = 3,
        current = \<lparr>tok_type = TOKEN_NUMBER, tok_value = 3, tok_text = ''3''\<rparr>\<rparr>,
        error = [], has_error = False\<rparr>"
  have h: "parse_expression TUI ideal_libm 20 (parser_init TUI ideal_libm (lexer_init ''2 3'')) =
      Some (2, ?p)"
    by (simp add: eval_defs ideal_defs cong: let_weak_cong)
  have "\<not> has_error ?p" "current_type ?p \<noteq> TOKEN_EOF"
    by (simp_all add: current_type_def)
  from trailing_tokens_rejected[OF h this] h show ?thesis
    by (simp add: msg_extra_tokens_def)
qed

text \<open>
  C8.  On the empty string, and on every input made of white space only, \<open>evaluate\<close> returns
  the unexpected-end error; it does not return a number.
\<close>

theorem empty_input_is_error:
  assumes "list_all isspace s"
  shows "evaluate v m s = Some (Inl (msg_unexpected_end v))"
proof -
  note init = parser_init_whitespace[OF assms, of v m]
  have "parse_expression v m 6 (parser_init v m (lexer_init s)) =
      Some (0, parser_error (parser_init v m (lexer_init s)) (msg_unexpected_end v))"
    using parse_expression_at_end[OF init, of v m 0] by (simp add: eval_nat_numeral)
  from evaluate_any_fuel[OF this] show ?thesis
    by (simp add: finish_error)
qed

theorem empty_input_is_error_witness:
  "list_all isspace '''' \<and> evaluate CLI ideal_libm '''' = Some (Inl ''Unexpected end of expression'')
   \<and> list_all isspace [CHR '' '', CHR 0x09, CHR '' '']
   \<and> evaluate TUI ideal_libm [CHR '' '', CHR 0x09, CHR '' ''] = Some (Inl ''Unexpected end'')"
proof -
  have a: "list_all isspace ''''" "list_all isspace [CHR '' '', CHR 0x09, CHR '' '']"
    by (simp_all add: isspace_def)
  from empty_input_is_error[OF a(1), of CLI ideal_libm]
    empty_input_is_error[OF a(2), of TUI ideal_libm] a
  show ?thesis
    by (simp add: msg_unexpected_end_def)
qed



text \<open>
  C10.  Every input on which the terminal dashboard (no implicit multiplication) evaluates to
  a number is evaluated to the same number by the Cocoa front-end (implicit multiplication).
\<close>

theorem mac_agrees_with_tui:
  assumes "evaluate TUI m s = Some (Inr x)"
  shows "evaluate MAC m s = Some (Inr x)"
proof -
  from assms obtain y p where
    1: "parse_expression TUI m (evaluate_fuel s) (parser_init TUI m (lexer_init s)) = Some (y, p)"
    and 2: "finish TUI (y, p) = Inr x"
    by (auto simp: evaluate_def)
  from 2 have 3: "\<not> has_error p" "current_type p = TOKEN_EOF" "y = x"
    by (simp_all add: finish_Inr)
  then have "\<not> implicit_multiplicand (current_type p)"
    by (simp add: implicit_multiplicand_def)
  with 1 3 have "parse_expression MAC m (evaluate_fuel s) (parser_init MAC m (lexer_init s)) =
      Some (x, p)"
    using tui_mac_simulation[of m "evaluate_fuel s", THEN conjunct1, rule_format,
        of "parser_init TUI m (lexer_init s)" y p]
    by (simp add: parser_init_tui_mac)
  with 3 show ?thesis
    by (simp add: evaluate_def finish_Inr)
qed

theorem mac_agrees_with_tui_witness:
  "evaluate TUI ideal_libm ''2 + 3 * 4'' = Some (Inr 14)
   \<and> evaluate MAC ideal_libm ''2 + 3 * 4'' = Some (Inr 14)"
proof -
  have h: "evaluate TUI ideal_libm ''2 + 3 * 4'' = Some (Inr 14)"
    by (simp add: eval_defs ideal_defs cong: let_weak_cong)
  from mac_agrees_with_tui[OF h] h show ?thesis
    by simp
qed

end
